theory Spec2Isabelle
  imports
    Main
    "HOL-Library.Multiset"
    "HOL-Library.Char_ord"
    "HOL-Library.List_Lexorder"
    "HOL-Library.Product_Lexorder"
begin

section \<open>The spell checker core of \<^verbatim>\<open>Backend/spellcheckfunc.c\<close>\<close>

text \<open>
  Conventions of the embedding.
  \<^item> A C string is the list of its bytes before the terminating NUL (\<open>string\<close>);
    \<open>strlen\<close> is \<open>length\<close>.
  \<^item> C \<open>int\<close> values are HOL integers in the range of a 32-bit \<open>int\<close>. The lengths
    and distances the program computes are below \<open>MAX_WORD_LEN\<close>. The only arithmetic on
    a caller-supplied value is \<open>abs (current_dict_word_len - misspelled_word_len)\<close>: for a
    word of \<open>n\<close> bytes that has passed the first filter the difference leaves the range
    when \<open>misspelled_word_len \<le> n - 2^31\<close>, so for no stored word as long as
    \<open>50 - 2^31 \<le> misspelled_word_len\<close>. C leaves that overflow undefined; the compiled
    program wraps around in two's complement, and the model writes that wrap-around out
    (\<open>int32\<close>, \<open>c_sub\<close>, \<open>c_abs\<close>).
  \<^item> \<open>fmin\<close> is applied to small integers converted to \<open>double\<close> and back, which is exact:
    it is \<open>min\<close> on integers.
  \<^item> \<open>dictionary_count\<close> and \<open>dictionary_capacity\<close> never go below 0 and are natural
    numbers; doubling the capacity leaves the range of \<open>int\<close> only for a dictionary of
    more than \<open>2^30\<close> words.
  \<^item> A \<open>for\<close> loop over a fixed range of indices is a \<open>fold\<close> over that range; a loop
    with an early exit is a recursive function.
  \<^item> \<open>printf\<close>, \<open>perror\<close> and \<open>fprintf\<close> only write to the terminal and are left out.
\<close>

subsection \<open>Constants\<close>

definition MAX_WORD_LEN :: nat where
  "MAX_WORD_LEN = 50"

definition MAX_LINE_LEN :: nat where
  "MAX_LINE_LEN = 256"

definition DICTIONARY_SIZE :: nat where
  "DICTIONARY_SIZE = 375000"

definition MAX_TEMP_SUGGESTIONS :: nat where
  "MAX_TEMP_SUGGESTIONS = 1000"

subsection \<open>Arithmetic on int\<close>

text \<open>
  \<open>int32 x\<close> is the 32-bit two's complement value that agrees with \<open>x\<close> modulo \<open>2^32\<close>.
  Subtraction wraps around, and so does \<open>abs\<close>, whose result for \<open>-2^31\<close> is \<open>-2^31\<close>.
\<close>

definition int32 :: "int \<Rightarrow> int" where
  "int32 x = (x + 2 ^ 31) mod 2 ^ 32 - 2 ^ 31"

definition c_sub :: "int \<Rightarrow> int \<Rightarrow> int" where
  "c_sub a b = int32 (a - b)"

definition c_abs :: "int \<Rightarrow> int" where
  "c_abs x = int32 \<bar>x\<bar>"

subsection \<open>Library functions of C\<close>

text \<open>\<open>tolower\<close> in the C locale, on an \<open>unsigned char\<close>: only \<open>A\<close>..\<open>Z\<close> change.\<close>

definition tolower :: "char \<Rightarrow> char" where
  "tolower c =
     (let n = (of_char c :: nat) in if 65 \<le> n \<and> n \<le> 90 then char_of (n + 32) else c)"

text \<open>
  \<open>strcmp\<close> compares byte by byte, as unsigned values; a string that ends first is
  the smaller one. C fixes only the sign of the result, which is what the model returns.
\<close>

fun strcmp :: "string \<Rightarrow> string \<Rightarrow> int" where
  "strcmp [] [] = 0"
| "strcmp [] (y # ys) = - 1"
| "strcmp (x # xs) [] = 1"
| "strcmp (x # xs) (y # ys) =
     (if x = y then strcmp xs ys
      else if (of_char x :: nat) < of_char y then - 1 else 1)"

text \<open>
  \<open>strncpy (dst, src, MAX_WORD_LEN - 1)\<close> followed by \<open>dst[MAX_WORD_LEN - 1] = '\0'\<close>:
  the destination holds the first \<open>MAX_WORD_LEN - 1\<close> bytes of the source.
\<close>

definition strncpy_word :: "string \<Rightarrow> string" where
  "strncpy_word src = take (MAX_WORD_LEN - 1) src"

text \<open>The loop \<open>for (i = 0; s[i]; i++) s[i] = tolower ((unsigned char) s[i])\<close>.\<close>

definition lowercase :: "string \<Rightarrow> string" where
  "lowercase s = map tolower s"

subsection \<open>damerau\_levenshtein\_distance\<close>

text \<open>
  The table \<open>dp\<close> is a list of rows. \<open>malloc\<close> either fails (\<open>None\<close>: one of the
  \<open>len1 + 2\<close> calls returned \<open>NULL\<close>, and every such path frees what it got and returns
  \<open>-1\<close>) or returns memory with arbitrary contents, \<open>junk i j\<close> in cell \<open>(i, j)\<close>.
\<close>

type_synonym dp_table = "int list list"

type_synonym malloc_result = "(nat \<Rightarrow> nat \<Rightarrow> int) option"

definition fresh_table :: "(nat \<Rightarrow> nat \<Rightarrow> int) \<Rightarrow> nat \<Rightarrow> nat \<Rightarrow> dp_table" where
  "fresh_table junk rows cols = map (\<lambda>i. map (junk i) [0..<cols]) [0..<rows]"

text \<open>The assignment \<open>dp[i][j] = v\<close>.\<close>

definition dp_set :: "dp_table \<Rightarrow> nat \<Rightarrow> nat \<Rightarrow> int \<Rightarrow> dp_table" where
  "dp_set dp i j v = dp[i := (dp ! i)[j := v]]"

text \<open>The body of the inner loop: the Levenshtein part, then the transposition part.\<close>

definition dp_cell :: "string \<Rightarrow> string \<Rightarrow> nat \<Rightarrow> nat \<Rightarrow> dp_table \<Rightarrow> dp_table" where
  "dp_cell s1 s2 i j dp =
     (let cost = (if s1 ! (i - 1) = s2 ! (j - 1) then 0 else 1);
          dp1 = dp_set dp i j
                  (min (dp ! (i - 1) ! j + 1)
                     (min (dp ! i ! (j - 1) + 1) (dp ! (i - 1) ! (j - 1) + cost)))
      in if i > 1 \<and> j > 1 \<and> s1 ! (i - 1) = s2 ! (j - 2) \<and> s1 ! (i - 2) = s2 ! (j - 1)
         then dp_set dp1 i j (min (dp1 ! i ! j) (dp1 ! (i - 2) ! (j - 2) + 1))
         else dp1)"

text \<open>The three loop nests: first column, first row, then rows \<open>1..len1\<close>.\<close>

definition dp_fill :: "string \<Rightarrow> string \<Rightarrow> dp_table \<Rightarrow> dp_table" where
  "dp_fill s1 s2 dp0 =
     (let len1 = length s1; len2 = length s2;
          dp1 = fold (\<lambda>i dp. dp_set dp i 0 (int i)) [0..<Suc len1] dp0;
          dp2 = fold (\<lambda>j dp. dp_set dp 0 j (int j)) [0..<Suc len2] dp1
      in fold (\<lambda>i. fold (\<lambda>j. dp_cell s1 s2 i j) [1..<Suc len2]) [1..<Suc len1] dp2)"

definition damerau_levenshtein_distance :: "malloc_result \<Rightarrow> string \<Rightarrow> string \<Rightarrow> int" where
  "damerau_levenshtein_distance heap s1 s2 =
     (let len1 = length s1; len2 = length s2 in
      if len1 = 0 then int len2
      else if len2 = 0 then int len1
      else case heap of
             None \<Rightarrow> - 1
           | Some junk \<Rightarrow>
               dp_fill s1 s2 (fresh_table junk (len1 + 1) (len2 + 1)) ! len1 ! len2)"

text \<open>
  The recurrence as the specification words it: \<open>dp[i][0] = i\<close>, \<open>dp[0][j] = j\<close>, the
  minimum of deletion, insertion and substitution, and the adjacent transposition
  when \<open>i > 1\<close>, \<open>j > 1\<close>, \<open>a[i-1] = b[j-2]\<close> and \<open>a[i-2] = b[j-1]\<close>.
\<close>

fun osa_recurrence :: "string \<Rightarrow> string \<Rightarrow> nat \<Rightarrow> nat \<Rightarrow> int" where
  "osa_recurrence a b i j =
     (if i = 0 then int j
      else if j = 0 then int i
      else
        (let cost = (if a ! (i - 1) = b ! (j - 1) then 0 else 1);
             m = min (osa_recurrence a b (i - 1) j + 1)
                   (min (osa_recurrence a b i (j - 1) + 1)
                      (osa_recurrence a b (i - 1) (j - 1) + cost))
         in if i > 1 \<and> j > 1 \<and> a ! (i - 1) = b ! (j - 2) \<and> a ! (i - 2) = b ! (j - 1)
            then min m (osa_recurrence a b (i - 2) (j - 2) + 1)
            else m))"

declare osa_recurrence.simps [simp del]

text \<open>
  For the proofs: the table has the dimensions it was allocated with, and the cells the
  loops have already passed hold the values of the recurrence. \<open>dp_filled a b dp i j\<close>:
  row and column 0, the rows before \<open>i\<close> and the cells of row \<open>i\<close> before column \<open>j\<close>.
\<close>

definition table_ok :: "dp_table \<Rightarrow> nat \<Rightarrow> nat \<Rightarrow> bool" where
  "table_ok dp rows cols \<longleftrightarrow> length dp = rows \<and> (\<forall>i<rows. length (dp ! i) = cols)"

definition dp_filled :: "string \<Rightarrow> string \<Rightarrow> dp_table \<Rightarrow> nat \<Rightarrow> nat \<Rightarrow> bool" where
  "dp_filled a b dp i j \<longleftrightarrow>
     table_ok dp (Suc (length a)) (Suc (length b)) \<and>
     (\<forall>i' j'. i' \<le> length a \<longrightarrow> j' \<le> length b \<longrightarrow>
        (i' = 0 \<or> j' = 0 \<or> i' < i \<or> (i' = i \<and> j' < j)) \<longrightarrow>
        dp ! i' ! j' = osa_recurrence a b i' j')"

subsection \<open>The global dictionary\<close>

text \<open>
  \<open>dictionary\<close> is \<open>NULL\<close> (\<open>None\<close>) or points to an array of \<open>DictionaryWord\<close>; the
  model keeps the entries that have been written, the first \<open>dictionary_count\<close> ones.
  The rest of the array is uninitialised memory that no function reads.
\<close>

record globals =
  dictionary :: "string list option"
  dictionary_count :: nat
  dictionary_capacity :: nat

definition initial_globals :: globals where
  "initial_globals = \<lparr>dictionary = None, dictionary_count = 0, dictionary_capacity = 0\<rparr>"

definition stored_words :: "globals \<Rightarrow> string list" where
  "stored_words st =
     (case dictionary st of None \<Rightarrow> [] | Some ws \<Rightarrow> take (dictionary_count st) ws)"

text \<open>
  A \<open>DictionaryWord\<close> is a \<open>char [MAX_WORD_LEN]\<close> holding a NUL-terminated string, so a
  stored word has fewer than \<open>MAX_WORD_LEN\<close> bytes.
\<close>

definition store_inv :: "globals \<Rightarrow> bool" where
  "store_inv st \<longleftrightarrow> (\<forall>w \<in> set (stored_words st). length w < MAX_WORD_LEN)"

definition cleanup :: "globals \<Rightarrow> globals" where
  "cleanup st = st\<lparr>dictionary := None, dictionary_count := 0, dictionary_capacity := 0\<rparr>"

subsection \<open>load\_dictionary\<close>

text \<open>
  What the function gets from outside: \<open>fopen\<close> fails (\<open>None\<close>) or gives the bytes of the
  file; \<open>malloc\<close> of the array succeeds or not; \<open>realloc\<close> to a given capacity succeeds
  or not.
\<close>

record load_env =
  fopen_result :: "string option"
  malloc_dictionary :: bool
  realloc_dictionary :: "nat \<Rightarrow> bool"

text \<open>
  \<open>fgets (line, n, file)\<close> reads at most \<open>n - 1\<close> bytes and stops after a newline;
  it returns \<open>NULL\<close> when the file is at its end. \<open>fgets_split k bs\<close> is the bytes read
  with room for \<open>k\<close> of them, and the rest of the file.
\<close>

fun fgets_split :: "nat \<Rightarrow> string \<Rightarrow> string \<times> string" where
  "fgets_split 0 bs = ([], bs)"
| "fgets_split (Suc k) [] = ([], [])"
| "fgets_split (Suc k) (c # cs) =
     (if c = CHR 0x0A then ([c], cs)
      else (case fgets_split k cs of (l, r) \<Rightarrow> (c # l, r)))"

definition fgets :: "nat \<Rightarrow> string \<Rightarrow> (string \<times> string) option" where
  "fgets n file = (if file = [] then None else Some (fgets_split (n - 1) file))"

text \<open>
  \<open>line[strcspn (line, "\n\r")] = 0\<close>: the line is cut at its first newline or carriage
  return. The buffer is read as a C string, so a NUL byte of the file ends it as well.
\<close>

definition strcspn_cut :: "string \<Rightarrow> string" where
  "strcspn_cut line = takeWhile (\<lambda>c. c \<noteq> CHR 0x0A \<and> c \<noteq> CHR 0x0D \<and> c \<noteq> CHR 0x00) line"

definition normalize_line :: "string \<Rightarrow> string" where
  "normalize_line chunk = lowercase (strcspn_cut chunk)"

text \<open>
  Trimming as the specification words it: the newlines and carriage returns at the end
  of a line are removed. It is what \<open>strcspn_cut\<close> does to a line whose only newlines
  and carriage returns are at its end and that has no NUL byte.
\<close>

definition trim_line :: "string \<Rightarrow> string" where
  "trim_line l = rev (dropWhile (\<lambda>c. c = CHR 0x0A \<or> c = CHR 0x0D) (rev l))"

text \<open>
  \<open>strncpy (dictionary[dictionary_count].word, line, MAX_WORD_LEN - 1)\<close>, the terminator
  and \<open>dictionary_count++\<close>. The loop runs only after \<open>malloc\<close> has succeeded, so
  \<open>dictionary\<close> is not \<open>NULL\<close> there.
\<close>

definition dictionary_store :: "globals \<Rightarrow> string \<Rightarrow> globals" where
  "dictionary_store st line =
     st\<lparr>dictionary :=
          map_option (\<lambda>ws. take (dictionary_count st) ws @ [strncpy_word line]) (dictionary st),
        dictionary_count := dictionary_count st + 1\<rparr>"

text \<open>The \<open>while (fgets (line, sizeof (line), file))\<close> loop; the first component is the value returned.\<close>

function load_dictionary_loop :: "(nat \<Rightarrow> bool) \<Rightarrow> string \<Rightarrow> globals \<Rightarrow> int \<times> globals" where
  "load_dictionary_loop realloc_ok file st =
     (case fgets MAX_LINE_LEN file of
        None \<Rightarrow> (1, st)
      | Some (chunk, rest) \<Rightarrow>
          (let line = normalize_line chunk in
           if length line < MAX_WORD_LEN then
             (if dictionary_count st \<ge> dictionary_capacity st then
                (let st' = st\<lparr>dictionary_capacity := dictionary_capacity st * 2\<rparr> in
                 if realloc_ok (dictionary_capacity st') then
                   load_dictionary_loop realloc_ok rest (dictionary_store st' line)
                 else
                   (0, st'\<lparr>dictionary := None, dictionary_count := 0,
                           dictionary_capacity := 0\<rparr>))
              else load_dictionary_loop realloc_ok rest (dictionary_store st line))
           else load_dictionary_loop realloc_ok rest st))"
  by pat_completeness auto
termination
proof (relation "measure (\<lambda>(realloc_ok, bytes, st). length bytes)")
  have shorter: "length (snd (fgets_split k bs)) \<le> length bs" for k bs
    by (induction k bs rule: fgets_split.induct) (auto split: prod.splits)
  have less: "length rest < length bs"
    if "fgets MAX_LINE_LEN bs = Some (chunk, rest)" for bs chunk rest
  proof (cases bs)
    case Nil
    with that show ?thesis
      by (simp add: fgets_def)
  next
    case (Cons c cs)
    have step: "length (snd (fgets_split (Suc k) (c # cs))) < length (c # cs)" for k
      using shorter [of k cs] by (auto split: prod.splits)
    obtain k where k: "MAX_LINE_LEN - 1 = Suc k"
      by (cases "MAX_LINE_LEN - 1") (simp_all add: MAX_LINE_LEN_def)
    have "rest = snd (fgets_split (MAX_LINE_LEN - 1) bs)"
      using that Cons by (simp add: fgets_def)
    with step [of k] show ?thesis
      unfolding k Cons by simp
  qed
  show "wf (measure (\<lambda>(realloc_ok, bytes, st). length bytes))"
    by simp
  show "((realloc_ok, rest, dictionary_store st' line), realloc_ok, bs, st)
      \<in> measure (\<lambda>(realloc_ok, bytes, st). length bytes)"
    if "fgets MAX_LINE_LEN bs = Some x2" "(chunk, rest) = x2"
    for realloc_ok bs st x2 chunk rest line st'
    using less [of bs chunk rest] that by simp
  show "((realloc_ok, rest, dictionary_store st line), realloc_ok, bs, st)
      \<in> measure (\<lambda>(realloc_ok, bytes, st). length bytes)"
    if "fgets MAX_LINE_LEN bs = Some x2" "(chunk, rest) = x2"
    for realloc_ok bs st x2 chunk rest line
    using less [of bs chunk rest] that by simp
  show "((realloc_ok, rest, st), realloc_ok, bs, st)
      \<in> measure (\<lambda>(realloc_ok, bytes, st). length bytes)"
    if "fgets MAX_LINE_LEN bs = Some x2" "(chunk, rest) = x2"
    for realloc_ok bs st x2 chunk rest
    using less [of bs chunk rest] that by simp
qed

declare load_dictionary_loop.simps [simp del]

definition load_dictionary :: "load_env \<Rightarrow> globals \<Rightarrow> int \<times> globals" where
  "load_dictionary env st0 =
     (let st1 = cleanup st0 in
      case fopen_result env of
        None \<Rightarrow> (0, st1)
      | Some file \<Rightarrow>
          (let st2 = st1\<lparr>dictionary_capacity := DICTIONARY_SIZE,
                         dictionary := (if malloc_dictionary env then Some [] else None)\<rparr>
           in if dictionary st2 = None then (0, st2)
              else load_dictionary_loop (realloc_dictionary env) file
                     (st2\<lparr>dictionary_count := 0\<rparr>)))"

text \<open>
  The lines of a file, each with its newline (the last one may lack it): what \<open>fgets\<close>
  returns when the buffer is large enough for every line.
\<close>

fun file_lines :: "string \<Rightarrow> string list" where
  "file_lines [] = []"
| "file_lines (c # cs) =
     (if c = CHR 0x0A then [c] # file_lines cs
      else (case file_lines cs of [] \<Rightarrow> [[c]] | l # ls \<Rightarrow> (c # l) # ls))"

subsection \<open>is\_word\_correct\<close>

text \<open>The loop over \<open>dictionary[0 .. dictionary_count - 1]\<close> with its early \<open>return 1\<close>.\<close>

fun is_word_correct_loop :: "string \<Rightarrow> string list \<Rightarrow> int" where
  "is_word_correct_loop lower_word [] = 0"
| "is_word_correct_loop lower_word (dict_word # rest) =
     (if strcmp lower_word dict_word = 0 then 1 else is_word_correct_loop lower_word rest)"

definition is_word_correct :: "globals \<Rightarrow> string \<Rightarrow> int" where
  "is_word_correct st w =
     (if dictionary st = None \<or> dictionary_count st = 0 then 0
      else
        (let lower_word = lowercase (strncpy_word w)
         in is_word_correct_loop lower_word (stored_words st)))"

subsection \<open>sort\_suggestions\<close>

record Suggestion =
  word :: string
  dist :: int

text \<open>The condition of the \<open>if\<close>, for \<open>suggestions[j]\<close> and \<open>suggestions[i]\<close>.\<close>

definition suggestion_before :: "Suggestion \<Rightarrow> Suggestion \<Rightarrow> bool" where
  "suggestion_before sj si \<longleftrightarrow>
     dist sj < dist si \<or> (dist sj = dist si \<and> strcmp (word sj) (word si) < 0)"

definition swap_if_before :: "nat \<Rightarrow> nat \<Rightarrow> Suggestion list \<Rightarrow> Suggestion list" where
  "swap_if_before i j suggestions =
     (if suggestion_before (suggestions ! j) (suggestions ! i)
      then suggestions[i := suggestions ! j, j := suggestions ! i]
      else suggestions)"

text \<open>
  The array is the list of its first \<open>count\<close> entries; \<open>i\<close> runs over \<open>0 .. count - 2\<close>
  and \<open>j\<close> over \<open>i + 1 .. count - 1\<close>.
\<close>

definition sort_suggestions :: "Suggestion list \<Rightarrow> Suggestion list" where
  "sort_suggestions suggestions =
     (let count = length suggestions
      in fold (\<lambda>i. fold (\<lambda>j. swap_if_before i j) [i + 1..<count]) [0..<count - 1] suggestions)"

text \<open>The sort key: distance first, then the word, both ascending.\<close>

definition suggestion_key :: "Suggestion \<Rightarrow> int \<times> string" where
  "suggestion_key s = (dist s, word s)"

subsection \<open>get\_suggestions\<close>

text \<open>
  The scan over the dictionary. \<open>i\<close> is the index of the word at the head of the list,
  \<open>heap i\<close> what \<open>malloc\<close> does in the distance computation for that word, and
  \<open>suggestions\<close> the entries written so far (\<open>suggestion_count\<close> is its length).
\<close>

fun get_suggestions_loop ::
  "(nat \<Rightarrow> malloc_result) \<Rightarrow> string \<Rightarrow> int \<Rightarrow> int \<Rightarrow> int \<Rightarrow> nat \<Rightarrow> string list \<Rightarrow>
     Suggestion list \<Rightarrow> Suggestion list" where
  "get_suggestions_loop heap lower_word tolerance misspelled_word_len length_tolerance i []
     suggestions = suggestions"
| "get_suggestions_loop heap lower_word tolerance misspelled_word_len length_tolerance i
     (dict_word # rest) suggestions =
     (let current_dict_word_len = int (length dict_word) in
      if current_dict_word_len < misspelled_word_len then
        get_suggestions_loop heap lower_word tolerance misspelled_word_len length_tolerance
          (Suc i) rest suggestions
      else if c_abs (c_sub current_dict_word_len misspelled_word_len) > length_tolerance then
        get_suggestions_loop heap lower_word tolerance misspelled_word_len length_tolerance
          (Suc i) rest suggestions
      else
        (let d = damerau_levenshtein_distance (heap i) lower_word dict_word in
         if d \<ge> 0 \<and> d \<le> tolerance then
           (if length suggestions < MAX_TEMP_SUGGESTIONS then
              get_suggestions_loop heap lower_word tolerance misspelled_word_len
                length_tolerance (Suc i) rest
                (suggestions @ [\<lparr>word = strncpy_word dict_word, dist = d\<rparr>])
            else suggestions)
         else
           get_suggestions_loop heap lower_word tolerance misspelled_word_len
             length_tolerance (Suc i) rest suggestions))"

text \<open>
  The result is the part of the caller's array that the function has filled; the
  returned count is its length.
\<close>

definition get_suggestions ::
  "(nat \<Rightarrow> malloc_result) \<Rightarrow> globals \<Rightarrow> string \<Rightarrow> int \<Rightarrow> int \<Rightarrow> int \<Rightarrow> Suggestion list" where
  "get_suggestions heap st w tolerance misspelled_word_len length_tolerance =
     (if dictionary st = None \<or> dictionary_count st = 0 then []
      else
        (let lower_word = lowercase (strncpy_word w)
         in sort_suggestions
              (get_suggestions_loop heap lower_word tolerance misspelled_word_len
                 length_tolerance 0 (stored_words st) [])))"

text \<open>
  The candidates that qualify, in store order: the word at index \<open>i\<close> passes both length
  filters, as the program computes them, and its distance is between 0 and the
  tolerance.
\<close>

definition qualifies ::
  "(nat \<Rightarrow> malloc_result) \<Rightarrow> string \<Rightarrow> int \<Rightarrow> int \<Rightarrow> int \<Rightarrow> nat \<times> string \<Rightarrow> bool" where
  "qualifies heap lower_word tolerance misspelled_word_len length_tolerance c =
     (misspelled_word_len \<le> int (length (snd c)) \<and>
      c_abs (c_sub (int (length (snd c))) misspelled_word_len) \<le> length_tolerance \<and>
      0 \<le> damerau_levenshtein_distance (heap (fst c)) lower_word (snd c) \<and>
      damerau_levenshtein_distance (heap (fst c)) lower_word (snd c) \<le> tolerance)"

definition candidate :: "(nat \<Rightarrow> malloc_result) \<Rightarrow> string \<Rightarrow> nat \<times> string \<Rightarrow> Suggestion" where
  "candidate heap lower_word c =
     \<lparr>word = snd c, dist = damerau_levenshtein_distance (heap (fst c)) lower_word (snd c)\<rparr>"

definition qualifying_candidates ::
  "(nat \<Rightarrow> malloc_result) \<Rightarrow> string \<Rightarrow> int \<Rightarrow> int \<Rightarrow> int \<Rightarrow> string list \<Rightarrow> Suggestion list" where
  "qualifying_candidates heap lower_word tolerance misspelled_word_len length_tolerance ws =
     map (candidate heap lower_word)
       (filter (qualifies heap lower_word tolerance misspelled_word_len length_tolerance)
          (enumerate 0 ws))"

subsection \<open>Example inputs\<close>

text \<open>
  The scenario of the specification: the dictionary \<open>anyway\<close>, \<open>any\<close>, \<open>airway\<close>, and a
  heap on which every allocation succeeds (and returns zeroed memory).
\<close>

definition example_store :: globals where
  "example_store =
     \<lparr>dictionary = Some [''anyway'', ''any'', ''airway''], dictionary_count = 3,
      dictionary_capacity = DICTIONARY_SIZE\<rparr>"

definition malloc_succeeds :: "nat \<Rightarrow> malloc_result" where
  "malloc_succeeds i = Some (\<lambda>r c. 0)"

text \<open>A heap on which the allocation for the first dictionary word fails.\<close>

definition malloc_fails_first :: "nat \<Rightarrow> malloc_result" where
  "malloc_fails_first i = (if i = 0 then None else Some (\<lambda>r c. 0))"

text \<open>
  A word list with mixed case, a CR-LF line end and no newline after the last word; a
  word list with an empty line; one line that is longer than the line buffer; a file
  that cannot be opened.
\<close>

definition example_file :: string where
  "example_file = ''Anyway'' @ [CHR 0x0D, CHR 0x0A] @ ''any'' @ [CHR 0x0A] @ ''AIRWAY''"

definition example_env :: load_env where
  "example_env =
     \<lparr>fopen_result = Some example_file, malloc_dictionary = True,
      realloc_dictionary = (\<lambda>n. True)\<rparr>"

definition blank_line_env :: load_env where
  "blank_line_env =
     \<lparr>fopen_result = Some (''any'' @ [CHR 0x0A, CHR 0x0A]), malloc_dictionary = True,
      realloc_dictionary = (\<lambda>n. True)\<rparr>"

definition long_line_env :: load_env where
  "long_line_env =
     \<lparr>fopen_result = Some (replicate 255 CHR ''a'' @ ''tail'' @ [CHR 0x0A]),
      malloc_dictionary = True, realloc_dictionary = (\<lambda>n. True)\<rparr>"

definition missing_file_env :: load_env where
  "missing_file_env =
     \<lparr>fopen_result = None, malloc_dictionary = True, realloc_dictionary = (\<lambda>n. True)\<rparr>"

text \<open>
  A dictionary with more words that qualify than the suggestion buffer holds: a thousand
  times \<open>a\<close>, then \<open>b\<close>.
\<close>

definition full_store :: globals where
  "full_store =
     \<lparr>dictionary = Some (replicate 1000 ''a'' @ [''b'']), dictionary_count = 1001,
      dictionary_capacity = DICTIONARY_SIZE\<rparr>"

section \<open>Properties\<close>

subsection \<open>The distance table\<close>

lemma table_ok_fresh: "table_ok (fresh_table junk r c) r c"
  by (simp add: table_ok_def fresh_table_def)

lemma table_ok_dp_set: "table_ok dp r c \<Longrightarrow> table_ok (dp_set dp i j v) r c"
proof -
  assume h: "table_ok dp r c"
  have "length (dp[i := (dp ! i)[j := v]] ! k) = c" if "k < r" for k
    using h that by (cases "k = i") (simp_all add: table_ok_def)
  then show ?thesis
    using h by (simp add: table_ok_def dp_set_def)
qed

lemma dp_set_nth:
  "table_ok dp r c \<Longrightarrow> i < r \<Longrightarrow> j < c \<Longrightarrow>
   dp_set dp i j v ! i' ! j' = (if i' = i \<and> j' = j then v else dp ! i' ! j')"
  by (auto simp: table_ok_def dp_set_def nth_list_update)

lemma dp_set_twice:
  "table_ok dp r c \<Longrightarrow> i < r \<Longrightarrow> dp_set (dp_set dp i j m) i j v = dp_set dp i j v"
  by (simp add: table_ok_def dp_set_def)

lemma init_col:
  "table_ok dp r c \<Longrightarrow> n \<le> r \<Longrightarrow> 0 < c \<Longrightarrow>
   table_ok (fold (\<lambda>i dp. dp_set dp i 0 (int i)) [0..<n] dp) r c \<and>
   (\<forall>i' j'. fold (\<lambda>i dp. dp_set dp i 0 (int i)) [0..<n] dp ! i' ! j' =
      (if i' < n \<and> j' = 0 then int i' else dp ! i' ! j'))"
proof (induction n)
  case 0
  then show ?case by simp
next
  case (Suc n)
  then show ?case
    by (auto simp: table_ok_dp_set dp_set_nth [where r = r and c = c])
qed

lemma init_row:
  "table_ok dp r c \<Longrightarrow> n \<le> c \<Longrightarrow> 0 < r \<Longrightarrow>
   table_ok (fold (\<lambda>j dp. dp_set dp 0 j (int j)) [0..<n] dp) r c \<and>
   (\<forall>i' j'. fold (\<lambda>j dp. dp_set dp 0 j (int j)) [0..<n] dp ! i' ! j' =
      (if i' = 0 \<and> j' < n then int j' else dp ! i' ! j'))"
proof (induction n)
  case 0
  then show ?case by simp
next
  case (Suc n)
  then show ?case
    by (auto simp: table_ok_dp_set dp_set_nth [where r = r and c = c])
qed

lemma osa_0: "osa_recurrence a b 0 j = int j" "osa_recurrence a b i 0 = int i"
  by (simp_all add: osa_recurrence.simps)

lemma dp_filled_init:
  assumes "table_ok dp0 (Suc (length a)) (Suc (length b))"
  shows "dp_filled a b
     (fold (\<lambda>j dp. dp_set dp 0 j (int j)) [0..<Suc (length b)]
        (fold (\<lambda>i dp. dp_set dp i 0 (int i)) [0..<Suc (length a)] dp0)) 1 1"
proof -
  let ?dp1 = "fold (\<lambda>i dp. dp_set dp i 0 (int i)) [0..<Suc (length a)] dp0"
  let ?dp2 = "fold (\<lambda>j dp. dp_set dp 0 j (int j)) [0..<Suc (length b)] ?dp1"
  have c: "table_ok ?dp1 (Suc (length a)) (Suc (length b))"
    "\<And>i' j'. ?dp1 ! i' ! j' = (if i' < Suc (length a) \<and> j' = 0 then int i' else dp0 ! i' ! j')"
    using init_col [OF assms, of "Suc (length a)"] by simp_all
  have r: "table_ok ?dp2 (Suc (length a)) (Suc (length b))"
    "\<And>i' j'. ?dp2 ! i' ! j' = (if i' = 0 \<and> j' < Suc (length b) then int j' else ?dp1 ! i' ! j')"
    using init_row [OF c(1), of "Suc (length b)"] by simp_all
  show ?thesis
    unfolding dp_filled_def using r(1) by (auto simp only: r(2) c(2) osa_0 split: if_splits)
qed

lemma dp_cell_osa:
  assumes f: "dp_filled a b dp i j"
    and i: "1 \<le> i" "i \<le> length a"
    and j: "1 \<le> j" "j \<le> length b"
  shows "dp_cell a b i j dp = dp_set dp i j (osa_recurrence a b i j)"
proof -
  let ?r = "Suc (length a)" and ?c = "Suc (length b)"
  have ok: "table_ok dp ?r ?c"
    using f by (simp add: dp_filled_def)
  have known: "dp ! i' ! j' = osa_recurrence a b i' j'"
    if "i' \<le> length a" "j' \<le> length b" "i' < i \<or> (i' = i \<and> j' < j)" for i' j'
    using f that by (auto simp: dp_filled_def)
  have up: "dp ! (i - Suc 0) ! j = osa_recurrence a b (i - Suc 0) j"
    using i j by (intro known) auto
  have left: "dp ! i ! (j - Suc 0) = osa_recurrence a b i (j - Suc 0)"
    using i j by (intro known) auto
  have diag: "dp ! (i - Suc 0) ! (j - Suc 0) = osa_recurrence a b (i - Suc 0) (j - Suc 0)"
    using i j by (intro known) auto
  have diag2: "dp ! (i - 2) ! (j - 2) = osa_recurrence a b (i - 2) (j - 2)"
    using i j by (intro known) auto
  have nth: "dp_set dp i j v ! i' ! j' = (if i' = i \<and> j' = j then v else dp ! i' ! j')"
    for v i' j'
    using i j by (intro dp_set_nth [OF ok]) auto
  have twice: "dp_set (dp_set dp i j m) i j v = dp_set dp i j v" for m v
    using i by (intro dp_set_twice [OF ok]) auto
  have far: "i - 2 \<noteq> i"
    using i by auto
  show ?thesis
    using i j far
    by (subst osa_recurrence.simps)
      (simp add: dp_cell_def Let_def nth twice up left diag diag2)
qed

lemma dp_filled_cell:
  assumes f: "dp_filled a b dp i j"
    and i: "1 \<le> i" "i \<le> length a"
    and j: "1 \<le> j" "j \<le> length b"
  shows "dp_filled a b (dp_cell a b i j dp) i (Suc j)"
proof -
  have ok: "table_ok dp (Suc (length a)) (Suc (length b))"
    using f by (simp add: dp_filled_def)
  have nth: "dp_set dp i j v ! i' ! j' = (if i' = i \<and> j' = j then v else dp ! i' ! j')"
    for v i' j'
    using i j by (intro dp_set_nth [OF ok]) auto
  show ?thesis
    unfolding dp_cell_osa [OF assms] dp_filled_def
    using f by (auto simp: nth table_ok_dp_set dp_filled_def less_Suc_eq)
qed

lemma dp_filled_row:
  assumes i: "1 \<le> i" "i \<le> length a"
  shows "dp_filled a b dp i 1 \<Longrightarrow> n \<le> length b \<Longrightarrow>
    dp_filled a b (fold (\<lambda>j. dp_cell a b i j) [1..<Suc n] dp) i (Suc n)"
proof (induction n)
  case 0
  then show ?case by simp
next
  case (Suc n)
  then have "dp_filled a b (fold (\<lambda>j. dp_cell a b i j) [1..<Suc n] dp) i (Suc n)"
    by simp
  from dp_filled_cell [OF this i] Suc.prems
  have "dp_filled a b (dp_cell a b i (Suc n) (fold (\<lambda>j. dp_cell a b i j) [1..<Suc n] dp))
      i (Suc (Suc n))"
    by simp
  moreover have "[1..<Suc (Suc n)] = [1..<Suc n] @ [Suc n]"
    by simp
  ultimately show ?case
    by (simp only: fold_append fold.simps o_apply id_apply)
qed

lemma dp_filled_next_row:
  assumes "dp_filled a b dp i (Suc (length b))"
  shows "dp_filled a b dp (Suc i) 1"
proof -
  have "dp ! i' ! j' = osa_recurrence a b i' j'"
    if "i' \<le> length a" "j' \<le> length b"
      "i' = 0 \<or> j' = 0 \<or> i' < Suc i \<or> (i' = Suc i \<and> j' < 1)"
    for i' j'
  proof -
    from that have "i' = 0 \<or> j' = 0 \<or> i' < i \<or> (i' = i \<and> j' < Suc (length b))"
      by auto
    with assms that(1,2) show ?thesis
      unfolding dp_filled_def by blast
  qed
  with assms show ?thesis
    unfolding dp_filled_def by blast
qed

lemma dp_filled_rows:
  "dp_filled a b dp 1 1 \<Longrightarrow> n \<le> length a \<Longrightarrow>
    dp_filled a b
      (fold (\<lambda>i. fold (\<lambda>j. dp_cell a b i j) [1..<Suc (length b)]) [1..<Suc n] dp)
      (Suc n) 1"
proof (induction n)
  case 0
  then show ?case by simp
next
  case (Suc n)
  let ?rows = "fold (\<lambda>i. fold (\<lambda>j. dp_cell a b i j) [1..<Suc (length b)]) [1..<Suc n] dp"
  from Suc have "dp_filled a b ?rows (Suc n) 1"
    by simp
  from dp_filled_row [OF _ _ this, of "length b"] Suc.prems
  have "dp_filled a b (fold (\<lambda>j. dp_cell a b (Suc n) j) [1..<Suc (length b)] ?rows)
      (Suc n) (Suc (length b))"
    by simp
  then have "dp_filled a b (fold (\<lambda>j. dp_cell a b (Suc n) j) [1..<Suc (length b)] ?rows)
      (Suc (Suc n)) 1"
    by (rule dp_filled_next_row)
  moreover have "[1..<Suc (Suc n)] = [1..<Suc n] @ [Suc n]"
    by simp
  ultimately show ?case
    by (simp only: fold_append fold.simps o_apply id_apply)
qed

lemma dp_fill_osa:
  assumes "table_ok dp0 (Suc (length a)) (Suc (length b))"
  shows "dp_fill a b dp0 ! length a ! length b = osa_recurrence a b (length a) (length b)"
proof -
  have "dp_filled a b (dp_fill a b dp0) (Suc (length a)) 1"
    unfolding dp_fill_def Let_def
    by (rule dp_filled_rows [OF dp_filled_init [OF assms]]) simp
  then show ?thesis
    by (simp add: dp_filled_def)
qed

lemma dld_osa:
  "damerau_levenshtein_distance (Some junk) a b = osa_recurrence a b (length a) (length b)"
proof (cases "length a = 0 \<or> length b = 0")
  case True
  then show ?thesis
    by (auto simp: damerau_levenshtein_distance_def Let_def osa_0)
next
  case False
  have "dp_fill a b (fresh_table junk (Suc (length a)) (Suc (length b))) ! length a ! length b
      = osa_recurrence a b (length a) (length b)"
    by (rule dp_fill_osa [OF table_ok_fresh])
  with False show ?thesis
    by (simp add: damerau_levenshtein_distance_def)
qed

lemma dld_empty:
  "damerau_levenshtein_distance heap [] s = int (length s)"
  "damerau_levenshtein_distance heap s [] = int (length s)"
  by (simp_all add: damerau_levenshtein_distance_def Let_def)

lemma dld_alloc_failure:
  "s1 \<noteq> [] \<Longrightarrow> s2 \<noteq> [] \<Longrightarrow> damerau_levenshtein_distance None s1 s2 = - 1"
  by (simp add: damerau_levenshtein_distance_def)

subsection \<open>The recurrence\<close>

lemma osa_step:
  assumes "i \<noteq> 0" "j \<noteq> 0"
  shows "osa_recurrence a b i j =
     (if 1 < i \<and> 1 < j \<and> a ! (i - 1) = b ! (j - 2) \<and> a ! (i - 2) = b ! (j - 1)
      then min (min (osa_recurrence a b (i - 1) j + 1)
                  (min (osa_recurrence a b i (j - 1) + 1)
                     (osa_recurrence a b (i - 1) (j - 1) + (if a ! (i - 1) = b ! (j - 1) then 0 else 1))))
             (osa_recurrence a b (i - 2) (j - 2) + 1)
      else min (osa_recurrence a b (i - 1) j + 1)
             (min (osa_recurrence a b i (j - 1) + 1)
                (osa_recurrence a b (i - 1) (j - 1) + (if a ! (i - 1) = b ! (j - 1) then 0 else 1))))"
  using assms by (subst osa_recurrence.simps) (simp only: Let_def if_False)

lemma osa_nonneg: "0 \<le> osa_recurrence a b i j"
proof (induction a b i j rule: osa_recurrence.induct)
  case (1 a b i j)
  show ?case
  proof (cases "i = 0 \<or> j = 0")
    case True
    then show ?thesis
      by (auto simp: osa_0)
  next
    case False
    then have ij: "i \<noteq> 0" "j \<noteq> 0"
      by simp_all
    have 1: "0 \<le> osa_recurrence a b (i - 1) j"
      and 2: "0 \<le> osa_recurrence a b i (j - 1)"
      and 3: "0 \<le> osa_recurrence a b (i - 1) (j - 1)"
      using "1.IH"(1-3) ij by simp_all
    have 4: "0 \<le> osa_recurrence a b (i - 2) (j - 2)"
      if "1 < i \<and> 1 < j \<and> a ! (i - 1) = b ! (j - 2) \<and> a ! (i - 2) = b ! (j - 1)"
      using "1.IH"(4) [OF ij refl refl that] .
    show ?thesis
    proof (cases "1 < i \<and> 1 < j \<and> a ! (i - 1) = b ! (j - 2) \<and> a ! (i - 2) = b ! (j - 1)")
      case True
      with 1 2 3 4 [OF True] show ?thesis
        unfolding osa_step [OF ij] by (simp only: if_True) simp
    next
      case False
      with 1 2 3 show ?thesis
        unfolding osa_step [OF ij] by (simp only: if_False) simp
    qed
  qed
qed

lemma osa_diag: "i \<le> length a \<Longrightarrow> osa_recurrence a a i i = 0"
proof (induction i)
  case 0
  then show ?case
    by (simp add: osa_0)
next
  case (Suc i)
  define A where "A = osa_recurrence a a (Suc i - 1) (Suc i)"
  define B where "B = osa_recurrence a a (Suc i) (Suc i - 1)"
  define Z where "Z = osa_recurrence a a (Suc i - 1) (Suc i - 1)"
  define D where "D = osa_recurrence a a (Suc i - 2) (Suc i - 2)"
  have n: "0 \<le> A" "0 \<le> B" "0 \<le> D"
    unfolding A_def B_def D_def by (rule osa_nonneg)+
  have z: "Z = 0"
    unfolding Z_def using Suc by simp
  define C where "C \<longleftrightarrow> 1 < Suc i \<and> 1 < Suc i \<and> a ! (Suc i - 1) = a ! (Suc i - 2) \<and>
    a ! (Suc i - 2) = a ! (Suc i - 1)"
  have "osa_recurrence a a (Suc i) (Suc i) =
      (if C then min (min (A + 1) (min (B + 1) (Z + 0))) (D + 1)
       else min (A + 1) (min (B + 1) (Z + 0)))"
    unfolding A_def B_def Z_def D_def C_def
    by (subst osa_step [of "Suc i" "Suc i" a a])
      (simp_all only: refl if_True nat.distinct not_False_eq_True)
  with n z show ?case
    by (cases C) (simp_all add: min_def)
qed

lemma osa_sym: "osa_recurrence a b i j = osa_recurrence b a j i"
proof (induction a b i j rule: osa_recurrence.induct)
  case (1 a b i j)
  show ?case
  proof (cases "i = 0 \<or> j = 0")
    case True
    then show ?thesis
      by (auto simp: osa_0)
  next
    case False
    then have ij: "i \<noteq> 0" "j \<noteq> 0"
      by simp_all
    let ?C = "1 < i \<and> 1 < j \<and> a ! (i - 1) = b ! (j - 2) \<and> a ! (i - 2) = b ! (j - 1)"
    let ?C' = "1 < j \<and> 1 < i \<and> b ! (j - 1) = a ! (i - 2) \<and> b ! (j - 2) = a ! (i - 1)"
    have 1: "osa_recurrence a b (i - 1) j = osa_recurrence b a j (i - 1)"
      and 2: "osa_recurrence a b i (j - 1) = osa_recurrence b a (j - 1) i"
      and 3: "osa_recurrence a b (i - 1) (j - 1) = osa_recurrence b a (j - 1) (i - 1)"
      using "1.IH"(1-3) ij by simp_all
    have 4: "osa_recurrence a b (i - 2) (j - 2) = osa_recurrence b a (j - 2) (i - 2)" if ?C
      using "1.IH"(4) [OF ij refl refl that] .
    have cond: "?C' = ?C"
      by auto
    have cost: "(if b ! (j - 1) = a ! (i - 1) then 0 else 1 :: int)
        = (if a ! (i - 1) = b ! (j - 1) then 0 else 1)"
      by auto
    show ?thesis
    proof (cases ?C)
      case True
      then have "?C'"
        using cond by simp
      show ?thesis
        unfolding osa_step [of i j a b, OF ij] osa_step [of j i b a, OF ij(2,1)]
        by (simp only: if_P [OF True] if_P [OF \<open>?C'\<close>] 1 2 3 4 [OF True] cost
            min.commute min.left_commute)
    next
      case False
      then have "\<not> ?C'"
        using cond by simp
      show ?thesis
        unfolding osa_step [of i j a b, OF ij] osa_step [of j i b a, OF ij(2,1)]
        by (simp only: if_not_P [OF False] if_not_P [OF \<open>\<not> ?C'\<close>] 1 2 3 cost
            min.commute min.left_commute)
    qed
  qed
qed

subsection \<open>Claims about the distance\<close>

text \<open>
  The values the specification lists as tests: a single adjacent transposition costs 1,
  and the classic pair is at distance 3, whatever the fresh memory holds.
\<close>

lemma distance_examples:
  "damerau_levenshtein_distance (Some (\<lambda>i j. 7)) ''ab'' ''ba'' = 1"
  "damerau_levenshtein_distance (Some (\<lambda>i j. - 3)) ''kitten'' ''sitting'' = 3"
  "damerau_levenshtein_distance (Some (\<lambda>i j. 0)) ''nayway'' ''anyway'' = 1"
  by code_simp+

text \<open>
  C1. Whenever the table is allocated, \<open>damerau_levenshtein_distance a b\<close> is the value
  \<open>dp[len a][len b]\<close> of the recurrence of the restricted Damerau-Levenshtein (optimal
  string alignment) distance, whatever the allocated memory held before. The distance
  from or to the empty string is the length of the other string (no memory is allocated
  there, so this holds even when \<open>malloc\<close> would fail), and the distance of a string to
  itself is 0.
\<close>

theorem C1_distance_is_recurrence:
  "damerau_levenshtein_distance (Some junk) a b = osa_recurrence a b (length a) (length b) \<and>
   damerau_levenshtein_distance heap [] s = int (length s) \<and>
   damerau_levenshtein_distance heap s [] = int (length s) \<and>
   damerau_levenshtein_distance (Some junk) s s = 0"
proof -
  have "damerau_levenshtein_distance (Some junk) s s = osa_recurrence s s (length s) (length s)"
    by (rule dld_osa)
  also have "\<dots> = 0"
    by (rule osa_diag) simp
  finally show ?thesis
    by (simp add: dld_osa dld_empty)
qed

text \<open>
  C9. The distance is symmetric: when both calls get their tables, the distance from
  \<open>a\<close> to \<open>b\<close> is the distance from \<open>b\<close> to \<open>a\<close>.
\<close>

theorem C9_distance_symmetric:
  "damerau_levenshtein_distance (Some junk) a b = damerau_levenshtein_distance (Some junk') b a"
  by (simp only: dld_osa osa_sym [of a b "length a" "length b"])

subsection \<open>Strings\<close>

text \<open>
  \<open>strcmp\<close> decides the lexicographic order of the byte strings: the order \<open><\<close> on
  \<open>string\<close> below is the lexicographic one, with bytes compared by their value.
\<close>

lemma strcmp_less_iff: "strcmp a b < 0 \<longleftrightarrow> a < b"
  by (induction a b rule: strcmp.induct) (auto simp: less_char_def)

lemma strcmp_eq_iff: "strcmp a b = 0 \<longleftrightarrow> a = b"
  by (induction a b rule: strcmp.induct) auto

lemma strcmp_le_iff: "strcmp a b \<le> 0 \<longleftrightarrow> a \<le> b"
  by (induction a b rule: strcmp.induct) (auto simp: less_char_def)

subsection \<open>sort\_suggestions sorts\<close>

lemma suggestion_before_iff:
  "suggestion_before x y \<longleftrightarrow> suggestion_key x < suggestion_key y"
  by (auto simp: suggestion_before_def suggestion_key_def strcmp_less_iff)

lemma swap_if_before_length [simp]: "length (swap_if_before i j xs) = length xs"
  by (simp add: swap_if_before_def)

lemma swap_if_before_mset:
  "i < length xs \<Longrightarrow> j < length xs \<Longrightarrow> mset (swap_if_before i j xs) = mset xs"
  by (simp add: swap_if_before_def mset_swap)

lemma swap_if_before_take: "i \<le> j \<Longrightarrow> take i (swap_if_before i j xs) = take i xs"
  by (simp add: swap_if_before_def)

lemma inner_loop:
  assumes "i < length xs" "k \<le> length xs"
  shows "length (fold (\<lambda>j. swap_if_before i j) [Suc i..<k] xs) = length xs \<and>
     mset (fold (\<lambda>j. swap_if_before i j) [Suc i..<k] xs) = mset xs \<and>
     take i (fold (\<lambda>j. swap_if_before i j) [Suc i..<k] xs) = take i xs \<and>
     (\<forall>m. i < m \<and> m < k \<longrightarrow>
        suggestion_key (fold (\<lambda>j. swap_if_before i j) [Suc i..<k] xs ! i)
          \<le> suggestion_key (fold (\<lambda>j. swap_if_before i j) [Suc i..<k] xs ! m))"
  using assms(2)
proof (induction k)
  case 0
  then show ?case by simp
next
  case (Suc k)
  show ?case
  proof (cases "Suc i \<le> k")
    case False
    then have e: "[Suc i..<Suc k] = []" and n: "\<And>m. \<not> (i < m \<and> m < Suc k)"
      by auto
    show ?thesis
      unfolding e using n by auto
  next
    case True
    define ys where "ys = fold (\<lambda>j. swap_if_before i j) [Suc i..<k] xs"
    have ys: "length ys = length xs" "mset ys = mset xs" "take i ys = take i xs"
      "\<And>m. i < m \<Longrightarrow> m < k \<Longrightarrow> suggestion_key (ys ! i) \<le> suggestion_key (ys ! m)"
      using Suc unfolding ys_def by simp_all
    have fold: "fold (\<lambda>j. swap_if_before i j) [Suc i..<Suc k] xs = swap_if_before i k ys"
      using True by (simp add: ys_def)
    have ik: "i < length ys" "k < length ys" "i < k"
      using assms(1) Suc.prems True ys(1) by simp_all
    have key: "suggestion_key (swap_if_before i k ys ! i) \<le> suggestion_key (swap_if_before i k ys ! m)"
      if "i < m" "m < Suc k" for m
    proof (cases "suggestion_before (ys ! k) (ys ! i)")
      case True
      then have lt: "suggestion_key (ys ! k) < suggestion_key (ys ! i)"
        by (simp add: suggestion_before_iff)
      show ?thesis
      proof (cases "m = k")
        case True
        with lt ik \<open>suggestion_before (ys ! k) (ys ! i)\<close> show ?thesis
          by (simp add: swap_if_before_def)
      next
        case False
        with that have "m < k" by simp
        from ys(4) [OF that(1) this] lt ik that False
          \<open>suggestion_before (ys ! k) (ys ! i)\<close> show ?thesis
          by (simp add: swap_if_before_def)
      qed
    next
      case False
      then have le: "suggestion_key (ys ! i) \<le> suggestion_key (ys ! k)"
        by (simp add: suggestion_before_iff)
      show ?thesis
      proof (cases "m = k")
        case True
        with le False show ?thesis
          by (simp add: swap_if_before_def)
      next
        case neq: False
        with that have "m < k" by simp
        from ys(4) [OF that(1) this] False show ?thesis
          by (simp add: swap_if_before_def)
      qed
    qed
    show ?thesis
      unfolding fold using ys(1-3) ik key
      by (simp add: swap_if_before_mset swap_if_before_take)
  qed
qed


lemma outer_loop:
  "n \<le> length xs - 1 \<Longrightarrow>
   length (fold (\<lambda>i. fold (\<lambda>j. swap_if_before i j) [i + 1..<length xs]) [0..<n] xs) = length xs \<and>
   mset (fold (\<lambda>i. fold (\<lambda>j. swap_if_before i j) [i + 1..<length xs]) [0..<n] xs) = mset xs \<and>
   sorted (map suggestion_key
     (take n (fold (\<lambda>i. fold (\<lambda>j. swap_if_before i j) [i + 1..<length xs]) [0..<n] xs))) \<and>
   (\<forall>x \<in> set (take n (fold (\<lambda>i. fold (\<lambda>j. swap_if_before i j) [i + 1..<length xs]) [0..<n] xs)).
    \<forall>y \<in> set (drop n (fold (\<lambda>i. fold (\<lambda>j. swap_if_before i j) [i + 1..<length xs]) [0..<n] xs)).
      suggestion_key x \<le> suggestion_key y)"
proof (induction n)
  case 0
  then show ?case by simp
next
  case (Suc n)
  define zs where "zs = fold (\<lambda>i. fold (\<lambda>j. swap_if_before i j) [i + 1..<length xs]) [0..<n] xs"
  define ys where "ys = fold (\<lambda>j. swap_if_before n j) [Suc n..<length xs] zs"
  have zs: "length zs = length xs" "mset zs = mset xs"
    "sorted (map suggestion_key (take n zs))"
    "\<And>x y. x \<in> set (take n zs) \<Longrightarrow> y \<in> set (drop n zs) \<Longrightarrow> suggestion_key x \<le> suggestion_key y"
    using Suc unfolding zs_def by simp_all
  have n: "n < length zs"
    using Suc.prems zs(1) by simp
  have ys: "length ys = length zs" "mset ys = mset zs" "take n ys = take n zs"
    "\<And>m. n < m \<Longrightarrow> m < length zs \<Longrightarrow> suggestion_key (ys ! n) \<le> suggestion_key (ys ! m)"
    using inner_loop [OF n, of "length xs"] zs(1) unfolding ys_def by simp_all
  have fold: "fold (\<lambda>i. fold (\<lambda>j. swap_if_before i j) [i + 1..<length xs]) [0..<Suc n] xs = ys"
    by (simp add: ys_def zs_def)
  have "mset (take n ys) + mset (drop n ys) = mset (take n zs) + mset (drop n zs)"
    using ys(2) by (simp flip: mset_append)
  then have "mset (drop n ys) = mset (drop n zs)"
    by (simp add: ys(3))
  then have drop: "set (drop n ys) = set (drop n zs)"
    by (rule mset_eq_setD)
  have yn: "ys ! n \<in> set (drop n ys)"
    using n ys(1) by (metis Cons_nth_drop_Suc list.set_intros(1))
  have le_n: "suggestion_key x \<le> suggestion_key (ys ! n)" if "x \<in> set (take n ys)" for x
    using zs(4) [of x "ys ! n"] that yn by (simp add: ys(3) drop)
  have take: "take (Suc n) ys = take n ys @ [ys ! n]"
    using n ys(1) by (simp add: take_Suc_conv_app_nth)
  have sorted: "sorted (map suggestion_key (take (Suc n) ys))"
    unfolding take using zs(3) le_n by (auto simp: sorted_append ys(3))
  have above: "suggestion_key x \<le> suggestion_key y"
    if "x \<in> set (take (Suc n) ys)" "y \<in> set (drop (Suc n) ys)" for x y
  proof -
    from that(2) obtain m where m: "y = ys ! m" "Suc n \<le> m" "m < length ys"
      by (auto simp: in_set_conv_nth)
    have y_in: "y \<in> set (drop n zs)"
      using that(2) drop by (metis Suc_n_not_le_n in_set_dropD nat_le_linear set_drop_subset_set_drop subsetD)
    from that(1) consider "x \<in> set (take n zs)" | "x = ys ! n"
      unfolding take by (auto simp: ys(3))
    then show ?thesis
    proof cases
      case 1
      then show ?thesis
        using zs(4) y_in by simp
    next
      case 2
      then show ?thesis
        using ys(4) [of m] m ys(1) by simp
    qed
  qed
  show ?case
    unfolding fold using ys(1,2) zs(1,2) sorted above by simp
qed

lemma sort_suggestions_props:
  "length (sort_suggestions xs) = length xs"
  "mset (sort_suggestions xs) = mset xs"
  "sorted (map suggestion_key (sort_suggestions xs))"
proof -
  define n where "n = length xs - 1"
  define zs where "zs = sort_suggestions xs"
  have zs: "length zs = length xs" "mset zs = mset xs"
    "sorted (map suggestion_key (take n zs))"
    "\<And>x y. x \<in> set (take n zs) \<Longrightarrow> y \<in> set (drop n zs) \<Longrightarrow> suggestion_key x \<le> suggestion_key y"
    using outer_loop [of n xs] unfolding zs_def n_def sort_suggestions_def Let_def by simp_all
  have "length (drop n zs) \<le> 1"
    using zs(1) by (simp add: n_def)
  then have "sorted (map suggestion_key (drop n zs))"
    by (cases "drop n zs") simp_all
  with zs(3,4) have "sorted (map suggestion_key (take n zs @ drop n zs))"
    unfolding map_append sorted_append by auto
  then show "length (sort_suggestions xs) = length xs" "mset (sort_suggestions xs) = mset xs"
    "sorted (map suggestion_key (sort_suggestions xs))"
    using zs(1,2) by (simp_all add: zs_def)
qed

lemma set_sort_suggestions: "set (sort_suggestions xs) = set xs"
  using sort_suggestions_props(2) by (rule mset_eq_setD)

subsection \<open>The scan of get\_suggestions\<close>

lemma strncpy_word_id: "length w < MAX_WORD_LEN \<Longrightarrow> strncpy_word w = w"
  by (simp add: strncpy_word_def MAX_WORD_LEN_def)

lemma length_strncpy_word: "length (strncpy_word w) < MAX_WORD_LEN"
  by (simp add: strncpy_word_def MAX_WORD_LEN_def)

lemma sort_suggestions_Nil [simp]: "sort_suggestions [] = []"
  by (simp add: sort_suggestions_def)

text \<open>The scan, whatever the words are: the entries written, cut at the cap.\<close>

lemma loop_take:
  "length acc \<le> MAX_TEMP_SUGGESTIONS \<Longrightarrow>
   get_suggestions_loop heap lw tol mwl lt i ws acc =
     take MAX_TEMP_SUGGESTIONS
       (acc @ map (\<lambda>c. \<lparr>word = strncpy_word (snd c),
                         dist = damerau_levenshtein_distance (heap (fst c)) lw (snd c)\<rparr>)
                (filter (qualifies heap lw tol mwl lt) (enumerate i ws)))"
proof (induction ws arbitrary: i acc)
  case Nil
  then show ?case by simp
next
  case (Cons dw ws)
  show ?case
  proof (cases "qualifies heap lw tol mwl lt (i, dw)")
    case False
    then have "get_suggestions_loop heap lw tol mwl lt i (dw # ws) acc =
        get_suggestions_loop heap lw tol mwl lt (Suc i) ws acc"
      by (auto simp: qualifies_def Let_def)
    with False Cons show ?thesis
      by (simp add: enumerate_simps)
  next
    case True
    show ?thesis
    proof (cases "length acc < MAX_TEMP_SUGGESTIONS")
      case less: True
      let ?s = "\<lparr>word = strncpy_word dw, dist = damerau_levenshtein_distance (heap i) lw dw\<rparr>"
      have "get_suggestions_loop heap lw tol mwl lt i (dw # ws) acc =
          get_suggestions_loop heap lw tol mwl lt (Suc i) ws (acc @ [?s])"
        using True less by (auto simp: qualifies_def Let_def)
      moreover have "length (acc @ [?s]) \<le> MAX_TEMP_SUGGESTIONS"
        using less by simp
      ultimately show ?thesis
        using True Cons.IH [of "acc @ [?s]" "Suc i"] by (simp add: enumerate_simps)
    next
      case False
      then have "get_suggestions_loop heap lw tol mwl lt i (dw # ws) acc = acc"
        using True by (auto simp: qualifies_def Let_def)
      with False Cons.prems show ?thesis
        by simp
    qed
  qed
qed

lemma candidates_strncpy:
  assumes "\<forall>w \<in> set ws. length w < MAX_WORD_LEN"
  shows "map (\<lambda>c. \<lparr>word = strncpy_word (snd c),
                    dist = damerau_levenshtein_distance (heap (fst c)) lw (snd c)\<rparr>)
           (filter (qualifies heap lw tol mwl lt) (enumerate i ws))
         = map (candidate heap lw) (filter (qualifies heap lw tol mwl lt) (enumerate i ws))"
proof (rule map_cong [OF refl])
  fix c assume "c \<in> set (filter (qualifies heap lw tol mwl lt) (enumerate i ws))"
  then have "fst c - i < length ws" "ws ! (fst c - i) = snd c"
    by (auto simp: in_set_enumerate_eq)
  then have "snd c \<in> set ws"
    using nth_mem by metis
  with assms show "\<lparr>word = strncpy_word (snd c),
      dist = damerau_levenshtein_distance (heap (fst c)) lw (snd c)\<rparr> = candidate heap lw c"
    by (simp add: candidate_def strncpy_word_id)
qed

lemma stored_words_empty:
  "dictionary st = None \<or> dictionary_count st = 0 \<Longrightarrow> stored_words st = []"
  by (auto simp: stored_words_def split: option.splits)

lemma get_suggestions_eq:
  assumes "store_inv st"
  shows "get_suggestions heap st w tol mwl lt =
    sort_suggestions (take MAX_TEMP_SUGGESTIONS
      (qualifying_candidates heap (lowercase (strncpy_word w)) tol mwl lt (stored_words st)))"
proof (cases "dictionary st = None \<or> dictionary_count st = 0")
  case True
  then show ?thesis
    by (simp add: get_suggestions_def stored_words_empty qualifying_candidates_def)
next
  case False
  let ?lw = "lowercase (strncpy_word w)"
  have "\<forall>w \<in> set (stored_words st). length w < MAX_WORD_LEN"
    using assms by (simp add: store_inv_def)
  note same = candidates_strncpy [OF this, of heap ?lw tol mwl lt 0]
  have "get_suggestions heap st w tol mwl lt =
      sort_suggestions (get_suggestions_loop heap ?lw tol mwl lt 0 (stored_words st) [])"
    unfolding get_suggestions_def Let_def if_not_P [OF False] ..
  also have "get_suggestions_loop heap ?lw tol mwl lt 0 (stored_words st) [] =
      take MAX_TEMP_SUGGESTIONS
        (qualifying_candidates heap ?lw tol mwl lt (stored_words st))"
    unfolding qualifying_candidates_def same [symmetric]
    by (subst loop_take) simp_all
  finally show ?thesis .
qed

lemma qualifying_candidate_props:
  assumes "s \<in> set (qualifying_candidates heap lw tol mwl lt ws)"
  shows "\<exists>i < length ws. word s = ws ! i \<and>
      dist s = damerau_levenshtein_distance (heap i) lw (ws ! i) \<and>
      qualifies heap lw tol mwl lt (i, ws ! i)"
proof -
  from assms obtain i x where c: "(i, x) \<in> set (enumerate 0 ws)"
    "qualifies heap lw tol mwl lt (i, x)" "s = candidate heap lw (i, x)"
    by (auto simp: qualifying_candidates_def)
  from c(1) have "i < length ws" "x = ws ! i"
    by (simp_all add: in_set_enumerate_eq)
  with c(2,3) show ?thesis
    by (intro exI [of _ i]) (simp add: candidate_def)
qed

lemma get_suggestions_member:
  assumes "store_inv st" "s \<in> set (get_suggestions heap st w tol mwl lt)"
  shows "\<exists>i < length (stored_words st). word s = stored_words st ! i \<and>
      dist s = damerau_levenshtein_distance (heap i) (lowercase (strncpy_word w)) (stored_words st ! i) \<and>
      qualifies heap (lowercase (strncpy_word w)) tol mwl lt (i, stored_words st ! i)"
proof -
  from assms have "s \<in> set (qualifying_candidates heap (lowercase (strncpy_word w)) tol mwl lt
      (stored_words st))"
    by (auto simp: get_suggestions_eq set_sort_suggestions dest: in_set_takeD)
  then show ?thesis
    by (rule qualifying_candidate_props)
qed

lemma get_suggestions_nonneg:
  assumes "s \<in> set (get_suggestions heap st w tol mwl lt)"
  shows "0 \<le> dist s"
proof -
  from assms have "s \<in> set (map (\<lambda>c. \<lparr>word = strncpy_word (snd c),
      dist = damerau_levenshtein_distance (heap (fst c)) (lowercase (strncpy_word w)) (snd c)\<rparr>)
     (filter (qualifies heap (lowercase (strncpy_word w)) tol mwl lt)
        (enumerate 0 (stored_words st))))"
    by (auto simp: get_suggestions_def Let_def loop_take set_sort_suggestions
        split: if_splits dest: in_set_takeD)
  then show ?thesis
    by (auto simp: qualifies_def)
qed

subsection \<open>The membership scan\<close>

lemma is_word_correct_loop_iff:
  "is_word_correct_loop lw ws = (if lw \<in> set ws then 1 else 0)"
  by (induction ws) (auto simp: strcmp_eq_iff)

lemma is_word_correct_eq:
  "is_word_correct st w = (if lowercase (strncpy_word w) \<in> set (stored_words st) then 1 else 0)"
proof (cases "dictionary st = None \<or> dictionary_count st = 0")
  case True
  then show ?thesis
    by (simp add: is_word_correct_def stored_words_empty)
next
  case False
  show ?thesis
    unfolding is_word_correct_def Let_def if_not_P [OF False] is_word_correct_loop_iff ..
qed

subsection \<open>Reading the file\<close>

lemma fgets_split_shorter: "length (snd (fgets_split k bs)) \<le> length bs"
  by (induction k bs rule: fgets_split.induct) (auto split: prod.splits)

lemma fgets_shorter:
  assumes "fgets MAX_LINE_LEN bs = Some (chunk, rest)"
  shows "length rest < length bs"
proof (cases bs)
  case Nil
  with assms show ?thesis
    by (simp add: fgets_def)
next
  case (Cons c cs)
  have step: "length (snd (fgets_split (Suc k) (c # cs))) < length (c # cs)" for k
    using fgets_split_shorter [of k cs] by (auto split: prod.splits)
  obtain k where k: "MAX_LINE_LEN - 1 = Suc k"
    by (cases "MAX_LINE_LEN - 1") (simp_all add: MAX_LINE_LEN_def)
  have "rest = snd (fgets_split (MAX_LINE_LEN - 1) bs)"
    using assms Cons by (simp add: fgets_def)
  with step [of k] show ?thesis
    unfolding k Cons by simp
qed

lemma load_loop_eof:
  "fgets MAX_LINE_LEN bs = None \<Longrightarrow> load_dictionary_loop r bs st = (1, st)"
  by (subst load_dictionary_loop.simps) simp

lemma load_loop_step:
  "fgets MAX_LINE_LEN bs = Some (chunk, rest) \<Longrightarrow>
   load_dictionary_loop r bs st =
     (if length (normalize_line chunk) < MAX_WORD_LEN then
        (if dictionary_count st \<ge> dictionary_capacity st then
           (if r (dictionary_capacity st * 2) then
              load_dictionary_loop r rest
                (dictionary_store (st\<lparr>dictionary_capacity := dictionary_capacity st * 2\<rparr>)
                   (normalize_line chunk))
            else
              (0, st\<lparr>dictionary_capacity := dictionary_capacity st * 2\<rparr>
                    \<lparr>dictionary := None, dictionary_count := 0, dictionary_capacity := 0\<rparr>))
         else load_dictionary_loop r rest (dictionary_store st (normalize_line chunk)))
      else load_dictionary_loop r rest st)"
  by (subst load_dictionary_loop.simps) (simp add: Let_def)

lemma load_loop_result:
  "fst (load_dictionary_loop r bs st) = 1 \<or>
   (fst (load_dictionary_loop r bs st) = 0 \<and>
    dictionary (snd (load_dictionary_loop r bs st)) = None \<and>
    dictionary_count (snd (load_dictionary_loop r bs st)) = 0)"
proof (induction "length bs" arbitrary: bs st rule: less_induct)
  case less
  show ?case
  proof (cases "fgets MAX_LINE_LEN bs")
    case None
    then show ?thesis
      by (simp add: load_loop_eof)
  next
    case (Some x)
    obtain chunk rest where x: "x = (chunk, rest)"
      by (cases x)
    note IH = less [OF fgets_shorter [OF Some [unfolded x]]]
    show ?thesis
      unfolding load_loop_step [OF Some [unfolded x]] using IH by (simp split: if_splits)
  qed
qed

lemma load_loop_inv:
  assumes "P st"
    and store: "\<And>st line. P st \<Longrightarrow> P (dictionary_store st line)"
    and cap: "\<And>st c. P st \<Longrightarrow> P (st\<lparr>dictionary_capacity := c\<rparr>)"
    and fail: "\<And>st. P (st\<lparr>dictionary := None, dictionary_count := 0, dictionary_capacity := 0\<rparr>)"
  shows "P (snd (load_dictionary_loop r bs st))"
  using assms(1)
proof (induction "length bs" arbitrary: bs st rule: less_induct)
  case less
  show ?case
  proof (cases "fgets MAX_LINE_LEN bs")
    case None
    with less.prems show ?thesis
      by (simp add: load_loop_eof)
  next
    case (Some x)
    obtain chunk rest where x: "x = (chunk, rest)"
      by (cases x)
    note IH = less(1) [OF fgets_shorter [OF Some [unfolded x]]]
    show ?thesis
      unfolding load_loop_step [OF Some [unfolded x]]
      using less.prems by (auto intro!: IH store cap fail)
  qed
qed

lemma stored_words_store:
  "set (stored_words (dictionary_store st line)) \<subseteq> insert (strncpy_word line) (set (stored_words st))"
  by (cases "dictionary st")
    (auto simp: stored_words_def dictionary_store_def dest: in_set_takeD)

lemma store_inv_store: "store_inv st \<Longrightarrow> store_inv (dictionary_store st line)"
  unfolding store_inv_def using stored_words_store [of st line] length_strncpy_word [of line]
  by auto

lemma store_inv_load_loop:
  "store_inv st \<Longrightarrow> store_inv (snd (load_dictionary_loop r bs st))"
  by (rule load_loop_inv)
    (simp_all add: store_inv_store, simp_all add: store_inv_def stored_words_def)

lemma load_dictionary_result:
  "fst (load_dictionary env st0) = 1 \<or>
   (fst (load_dictionary env st0) = 0 \<and>
    dictionary (snd (load_dictionary env st0)) = None \<and>
    dictionary_count (snd (load_dictionary env st0)) = 0)"
  using load_loop_result
  by (auto simp: load_dictionary_def Let_def cleanup_def split: option.splits)

lemma store_inv_load_dictionary: "store_inv (snd (load_dictionary env st0))"
proof -
  have "store_inv (st\<lparr>dictionary := Some [], dictionary_count := 0\<rparr>)" for st
    by (simp add: store_inv_def stored_words_def)
  from store_inv_load_loop [OF this] show ?thesis
    by (auto simp: load_dictionary_def Let_def cleanup_def store_inv_def stored_words_def
        split: option.splits)
qed


subsection \<open>Lines that fit the buffer\<close>

lemma file_lines_Nil_iff: "file_lines bs = [] \<longleftrightarrow> bs = []"
  by (cases bs) (auto split: list.splits)

lemma fgets_split_Nil: "fgets_split k [] = ([], [])"
  by (cases k) simp_all

lemma fgets_split_line:
  "file_lines bs = l # ls \<Longrightarrow> length l \<le> k \<Longrightarrow>
   \<exists>rest. fgets_split k bs = (l, rest) \<and> file_lines rest = ls"
proof (induction bs arbitrary: k l ls)
  case Nil
  then show ?case by simp
next
  case (Cons c cs)
  from Cons.prems have "l \<noteq> []"
    by (auto split: if_splits list.splits)
  with Cons.prems(2) obtain k' where k: "k = Suc k'"
    by (cases k) auto
  show ?case
  proof (cases "c = CHR 0x0A")
    case True
    with Cons.prems k show ?thesis
      by simp
  next
    case False
    show ?thesis
    proof (cases "file_lines cs")
      case Nil
      then have "cs = []"
        by (simp add: file_lines_Nil_iff)
      with Cons.prems False k have "l = [c]" "ls = []"
        by auto
      with False k \<open>cs = []\<close> show ?thesis
        by (simp add: fgets_split_Nil)
    next
      case (Cons l' ls')
      with Cons.prems False k have l: "l = c # l'" "ls = ls'" "length l' \<le> k'"
        by auto
      from Cons.IH [OF Cons l(3)] obtain rest
        where "fgets_split k' cs = (l', rest)" "file_lines rest = ls'"
        by blast
      with False k l show ?thesis
        by simp
    qed
  qed
qed

lemma fgets_line:
  assumes "file_lines bs = l # ls" "length l < MAX_LINE_LEN"
  shows "\<exists>rest. fgets MAX_LINE_LEN bs = Some (l, rest) \<and> file_lines rest = ls"
proof -
  from assms(1) have "bs \<noteq> []"
    by auto
  moreover from assms(2) have "length l \<le> MAX_LINE_LEN - 1"
    by simp
  from fgets_split_line [OF assms(1) this] obtain rest
    where "fgets_split (MAX_LINE_LEN - 1) bs = (l, rest)" "file_lines rest = ls"
    by blast
  ultimately show ?thesis
    by (simp add: fgets_def)
qed

lemma dictionary_store_Some:
  assumes "dictionary st = Some ws" "dictionary_count st = length ws"
    "length line < MAX_WORD_LEN"
  shows "dictionary (dictionary_store st line) = Some (ws @ [line])"
    "dictionary_count (dictionary_store st line) = length (ws @ [line])"
  using assms by (simp_all add: dictionary_store_def strncpy_word_id)

lemma load_loop_lines:
  assumes "file_lines bs = ls" "\<forall>l \<in> set ls. length l < MAX_LINE_LEN"
    "dictionary st = Some ws" "dictionary_count st = length ws"
    "fst (load_dictionary_loop r bs st) = 1"
  shows "stored_words (snd (load_dictionary_loop r bs st)) =
    ws @ filter (\<lambda>w. length w < MAX_WORD_LEN) (map normalize_line ls)"
  using assms
proof (induction ls arbitrary: bs st ws)
  case Nil
  then have "bs = []"
    by (simp add: file_lines_Nil_iff)
  then have "load_dictionary_loop r bs st = (1, st)"
    by (simp add: load_loop_eof fgets_def)
  with Nil show ?case
    by (simp add: stored_words_def)
next
  case (Cons l ls)
  from fgets_line [OF Cons.prems(1)] Cons.prems(2) obtain rest
    where rest: "fgets MAX_LINE_LEN bs = Some (l, rest)" "file_lines rest = ls"
    by auto
  note step = load_loop_step [OF rest(1), of r st]
  have short: "\<forall>l \<in> set ls. length l < MAX_LINE_LEN"
    using Cons.prems(2) by simp
  show ?case
  proof (cases "length (normalize_line l) < MAX_WORD_LEN")
    case False
    with step have eq: "load_dictionary_loop r bs st = load_dictionary_loop r rest st"
      by simp
    from Cons.IH [OF rest(2) short Cons.prems(3,4)] Cons.prems(5) False show ?thesis
      unfolding eq by simp
  next
    case True
    let ?line = "normalize_line l"
    show ?thesis
    proof (cases "dictionary_count st \<ge> dictionary_capacity st")
      case False
      with step True have eq: "load_dictionary_loop r bs st =
          load_dictionary_loop r rest (dictionary_store st ?line)"
        by simp
      from Cons.IH [OF rest(2) short dictionary_store_Some [OF Cons.prems(3,4) True]]
        Cons.prems(5) True
      show ?thesis
        unfolding eq by simp
    next
      case full: True
      let ?st = "st\<lparr>dictionary_capacity := dictionary_capacity st * 2\<rparr>"
      have ok: "r (dictionary_capacity st * 2)"
        using step True full Cons.prems(5) by (auto split: if_splits)
      with step True full have eq: "load_dictionary_loop r bs st =
          load_dictionary_loop r rest (dictionary_store ?st ?line)"
        by simp
      have "dictionary ?st = Some ws" "dictionary_count ?st = length ws"
        using Cons.prems(3,4) by simp_all
      from Cons.IH [OF rest(2) short dictionary_store_Some [OF this True]]
        Cons.prems(5) True
      show ?thesis
        unfolding eq by simp
    qed
  qed
qed

lemma load_dictionary_lines:
  assumes "fst (load_dictionary env st0) = 1" "fopen_result env = Some bs"
    "\<forall>l \<in> set (file_lines bs). length l < MAX_LINE_LEN"
  shows "stored_words (snd (load_dictionary env st0)) =
    filter (\<lambda>w. length w < MAX_WORD_LEN) (map normalize_line (file_lines bs))"
proof -
  let ?st = "cleanup st0\<lparr>dictionary_capacity := DICTIONARY_SIZE, dictionary := Some []\<rparr>
    \<lparr>dictionary_count := 0\<rparr>"
  from assms(1,2) have m: "malloc_dictionary env"
    by (auto simp: load_dictionary_def Let_def split: if_splits)
  with assms(2) have eq: "load_dictionary env st0 =
      load_dictionary_loop (realloc_dictionary env) bs ?st"
    by (simp add: load_dictionary_def Let_def)
  have "dictionary ?st = Some []" "dictionary_count ?st = length ([] :: string list)"
    by simp_all
  from load_loop_lines [OF refl assms(3) this] assms(1) show ?thesis
    unfolding eq by simp
qed

subsection \<open>The example scenario, evaluated\<close>

lemma store_inv_example: "store_inv example_store"
  by (simp add: store_inv_def stored_words_def example_store_def MAX_WORD_LEN_def)

lemma stored_words_example: "stored_words example_store = [''anyway'', ''any'', ''airway'']"
  by (simp add: stored_words_def example_store_def)

lemma get_suggestions_example:
  "lowercase (strncpy_word w) = lw \<Longrightarrow>
   get_suggestions heap example_store w tol mwl lt =
     sort_suggestions (get_suggestions_loop heap lw tol mwl lt 0 [''anyway'', ''any'', ''airway''] [])"
  by (simp add: get_suggestions_def stored_words_example) (simp add: example_store_def)

lemma example_nayway:
  "get_suggestions malloc_succeeds example_store ''nayway'' 3 6 2 =
     [\<lparr>word = ''anyway'', dist = 1\<rparr>, \<lparr>word = ''airway'', dist = 3\<rparr>]"
proof -
  have "lowercase (strncpy_word ''nayway'') = ''nayway''"
    by code_simp
  moreover have "get_suggestions_loop malloc_succeeds ''nayway'' 3 6 2 0
      [''anyway'', ''any'', ''airway''] [] =
      [\<lparr>word = ''anyway'', dist = 1\<rparr>, \<lparr>word = ''airway'', dist = 3\<rparr>]"
    by code_simp
  moreover have "sort_suggestions [\<lparr>word = ''anyway'', dist = 1\<rparr>, \<lparr>word = ''airway'', dist = 3\<rparr>]
      = [\<lparr>word = ''anyway'', dist = 1\<rparr>, \<lparr>word = ''airway'', dist = 3\<rparr>]"
    by code_simp
  ultimately show ?thesis
    by (simp only: get_suggestions_example)
qed

lemma example_nayway_failed_malloc:
  "get_suggestions malloc_fails_first example_store ''nayway'' 3 6 2 =
     [\<lparr>word = ''airway'', dist = 3\<rparr>]"
proof -
  have "lowercase (strncpy_word ''nayway'') = ''nayway''"
    by code_simp
  moreover have "get_suggestions_loop malloc_fails_first ''nayway'' 3 6 2 0
      [''anyway'', ''any'', ''airway''] [] = [\<lparr>word = ''airway'', dist = 3\<rparr>]"
    by code_simp
  moreover have "sort_suggestions [\<lparr>word = ''airway'', dist = 3\<rparr>] = [\<lparr>word = ''airway'', dist = 3\<rparr>]"
    by code_simp
  ultimately show ?thesis
    by (simp only: get_suggestions_example)
qed

lemma example_anyway:
  "get_suggestions malloc_succeeds example_store ''anyway'' 3 3 3 =
     [\<lparr>word = ''anyway'', dist = 0\<rparr>, \<lparr>word = ''airway'', dist = 2\<rparr>, \<lparr>word = ''any'', dist = 3\<rparr>]"
proof -
  have "lowercase (strncpy_word ''anyway'') = ''anyway''"
    by code_simp
  moreover have "get_suggestions_loop malloc_succeeds ''anyway'' 3 3 3 0
      [''anyway'', ''any'', ''airway''] [] =
      [\<lparr>word = ''anyway'', dist = 0\<rparr>, \<lparr>word = ''any'', dist = 3\<rparr>, \<lparr>word = ''airway'', dist = 2\<rparr>]"
    by code_simp
  moreover have "sort_suggestions
      [\<lparr>word = ''anyway'', dist = 0\<rparr>, \<lparr>word = ''any'', dist = 3\<rparr>, \<lparr>word = ''airway'', dist = 2\<rparr>]
      = [\<lparr>word = ''anyway'', dist = 0\<rparr>, \<lparr>word = ''airway'', dist = 2\<rparr>, \<lparr>word = ''any'', dist = 3\<rparr>]"
    by code_simp
  ultimately show ?thesis
    by (simp only: get_suggestions_example)
qed

lemma example_any:
  "get_suggestions malloc_succeeds example_store ''any'' 3 5 1 = [\<lparr>word = ''anyway'', dist = 3\<rparr>]"
proof -
  have "lowercase (strncpy_word ''any'') = ''any''"
    by code_simp
  moreover have "get_suggestions_loop malloc_succeeds ''any'' 3 5 1 0
      [''anyway'', ''any'', ''airway''] [] = [\<lparr>word = ''anyway'', dist = 3\<rparr>]"
    by code_simp
  moreover have "sort_suggestions [\<lparr>word = ''anyway'', dist = 3\<rparr>] = [\<lparr>word = ''anyway'', dist = 3\<rparr>]"
    by code_simp
  ultimately show ?thesis
    by (simp only: get_suggestions_example)
qed

subsection \<open>The length filter within the range of int\<close>

lemma int32_id: "- (2 ^ 31) \<le> x \<Longrightarrow> x < 2 ^ 31 \<Longrightarrow> int32 x = x"
  by (simp add: int32_def)

text \<open>
  For a word shorter than \<open>MAX_WORD_LEN\<close> that is at least \<open>misspelled_word_len\<close> long,
  the program's \<open>abs\<close> of the difference is the absolute difference of the two
  lengths as soon as \<open>misspelled_word_len\<close> is at least \<open>MAX_WORD_LEN - 2^31\<close>.
\<close>

lemma no_wrap:
  assumes "int MAX_WORD_LEN - 2 ^ 31 \<le> mwl" "mwl \<le> int n" "n < MAX_WORD_LEN"
  shows "c_abs (c_sub (int n) mwl) = \<bar>int n - mwl\<bar>"
proof -
  have "0 \<le> int n - mwl" "int n - mwl < 2 ^ 31"
    using assms by (simp_all add: MAX_WORD_LEN_def)
  then show ?thesis
    by (simp add: c_abs_def c_sub_def int32_id)
qed

lemma qualifies_in_range:
  assumes "int MAX_WORD_LEN - 2 ^ 31 \<le> mwl" "length x < MAX_WORD_LEN"
  shows "qualifies heap lw tol mwl lt (i, x) \<longleftrightarrow>
     (mwl \<le> int (length x) \<and> \<bar>int (length x) - mwl\<bar> \<le> lt \<and>
      0 \<le> damerau_levenshtein_distance (heap i) lw x \<and>
      damerau_levenshtein_distance (heap i) lw x \<le> tol)"
  using no_wrap [OF assms(1) _ assms(2)] by (auto simp: qualifies_def)

subsection \<open>More candidates than the buffer holds\<close>

lemma stored_words_full: "stored_words full_store = replicate 1000 ''a'' @ [''b'']"
  by (simp add: stored_words_def full_store_def)

lemma store_inv_full: "store_inv full_store"
  by (auto simp: store_inv_def stored_words_full MAX_WORD_LEN_def)

text \<open>When \<open>malloc\<close> does the same for every word, the index of a word does not matter.\<close>

lemma candidates_same_heap:
  assumes "\<And>i. heap i = h"
  shows "map (candidate heap lw) (filter (qualifies heap lw tol mwl lt) (enumerate n ws)) =
     map (\<lambda>x. candidate heap lw (0, x)) (filter (\<lambda>x. qualifies heap lw tol mwl lt (0, x)) ws)"
proof (induction ws arbitrary: n)
  case Nil
  then show ?case by simp
next
  case (Cons x ws)
  have "qualifies heap lw tol mwl lt (n, x) = qualifies heap lw tol mwl lt (0, x)"
    "candidate heap lw (n, x) = candidate heap lw (0, x)"
    by (simp_all add: qualifies_def candidate_def assms)
  with Cons show ?case
    by (simp add: enumerate_simps)
qed

lemma full_store_candidates:
  "qualifying_candidates malloc_succeeds ''a'' 1 1 0 (replicate 1000 ''a'' @ [''b'']) =
     replicate 1000 \<lparr>word = ''a'', dist = 0\<rparr> @ [\<lparr>word = ''b'', dist = 1\<rparr>]"
proof -
  have q: "qualifies malloc_succeeds ''a'' 1 1 0 (0, ''a'')"
    "qualifies malloc_succeeds ''a'' 1 1 0 (0, ''b'')"
    by code_simp+
  have c: "candidate malloc_succeeds ''a'' (0, ''a'') = \<lparr>word = ''a'', dist = 0\<rparr>"
    "candidate malloc_succeeds ''a'' (0, ''b'') = \<lparr>word = ''b'', dist = 1\<rparr>"
    by code_simp+
  have "\<And>i. malloc_succeeds i = Some (\<lambda>r c. 0)"
    by (simp add: malloc_succeeds_def)
  from candidates_same_heap [OF this] show ?thesis
    unfolding qualifying_candidates_def by (simp add: q c)
qed

lemma example_full_store:
  "get_suggestions malloc_succeeds full_store ''a'' 1 1 0 =
     replicate 1000 \<lparr>word = ''a'', dist = 0\<rparr>"
proof -
  let ?A = "\<lparr>word = ''a'', dist = 0\<rparr>"
  have lw: "lowercase (strncpy_word ''a'') = ''a''"
    by code_simp
  have "get_suggestions malloc_succeeds full_store ''a'' 1 1 0 =
      sort_suggestions (take MAX_TEMP_SUGGESTIONS
        (replicate 1000 ?A @ [\<lparr>word = ''b'', dist = 1\<rparr>]))"
    by (simp only: get_suggestions_eq [OF store_inv_full] lw stored_words_full
        full_store_candidates)
  also have "take MAX_TEMP_SUGGESTIONS (replicate 1000 ?A @ [\<lparr>word = ''b'', dist = 1\<rparr>]) =
      replicate 1000 ?A"
    by (simp add: MAX_TEMP_SUGGESTIONS_def)
  finally have r: "get_suggestions malloc_succeeds full_store ''a'' 1 1 0 =
      sort_suggestions (replicate 1000 ?A)" .
  have "length (sort_suggestions (replicate 1000 ?A)) = 1000"
    by (simp add: sort_suggestions_props(1))
  moreover have "y = ?A" if "y \<in> set (sort_suggestions (replicate 1000 ?A))" for y
    using that by (simp add: set_sort_suggestions)
  ultimately have "sort_suggestions (replicate 1000 ?A) = replicate 1000 ?A"
    by (rule replicate_eqI)
  with r show ?thesis
    by simp
qed

text \<open>
  The query length \<open>-2147483645\<close> with the length tolerance \<open>2147483647\<close>: the difference
  \<open>6 - (-2147483645)\<close> wraps around, \<open>anyway\<close> and \<open>airway\<close> pass the filter.
\<close>

lemma example_overflow:
  "get_suggestions malloc_succeeds example_store ''nayway'' 3 (- 2147483645) 2147483647 =
     [\<lparr>word = ''anyway'', dist = 1\<rparr>, \<lparr>word = ''airway'', dist = 3\<rparr>]"
proof -
  have "lowercase (strncpy_word ''nayway'') = ''nayway''"
    by code_simp
  moreover have "get_suggestions_loop malloc_succeeds ''nayway'' 3 (- 2147483645) 2147483647 0
      [''anyway'', ''any'', ''airway''] [] =
      [\<lparr>word = ''anyway'', dist = 1\<rparr>, \<lparr>word = ''airway'', dist = 3\<rparr>]"
    by code_simp
  moreover have "sort_suggestions [\<lparr>word = ''anyway'', dist = 1\<rparr>, \<lparr>word = ''airway'', dist = 3\<rparr>]
      = [\<lparr>word = ''anyway'', dist = 1\<rparr>, \<lparr>word = ''airway'', dist = 3\<rparr>]"
    by code_simp
  ultimately show ?thesis
    by (simp only: get_suggestions_example)
qed

subsection \<open>Claims about get\_suggestions\<close>

text \<open>
  C2 (amended). Against a store of dictionary words, every suggestion \<open>(w, d)\<close> that
  \<open>get_suggestions\<close> returns has \<open>d \<le> tolerance\<close> and is at least as long as the given
  query length; when the given query length is at least \<open>MAX_WORD_LEN - 2^31\<close>, so that
  the difference of the lengths stays in the range of \<open>int\<close>, its length differs from
  the given query length by at most \<open>length_tolerance\<close>.
\<close>

theorem C2_suggestions_within_bounds:
  assumes "store_inv st"
    and "s \<in> set (get_suggestions heap st w tolerance misspelled_word_len length_tolerance)"
  shows "dist s \<le> tolerance \<and>
     misspelled_word_len \<le> int (length (word s)) \<and>
     (int MAX_WORD_LEN - 2 ^ 31 \<le> misspelled_word_len \<longrightarrow>
        \<bar>int (length (word s)) - misspelled_word_len\<bar> \<le> length_tolerance)"
proof -
  let ?lw = "lowercase (strncpy_word w)"
  from get_suggestions_member [OF assms] obtain i
    where i: "i < length (stored_words st)" "word s = stored_words st ! i"
      "dist s = damerau_levenshtein_distance (heap i) ?lw (stored_words st ! i)"
      "qualifies heap ?lw tolerance misspelled_word_len length_tolerance (i, stored_words st ! i)"
    by blast
  from assms(1) i(1) have short: "length (stored_words st ! i) < MAX_WORD_LEN"
    by (simp add: store_inv_def)
  from i(2-4) have "dist s \<le> tolerance" "misspelled_word_len \<le> int (length (word s))"
    by (simp_all add: qualifies_def)
  moreover have "\<bar>int (length (word s)) - misspelled_word_len\<bar> \<le> length_tolerance"
    if "int MAX_WORD_LEN - 2 ^ 31 \<le> misspelled_word_len"
  proof -
    from i(4) have "\<bar>int (length (stored_words st ! i)) - misspelled_word_len\<bar> \<le> length_tolerance"
      unfolding qualifies_in_range [OF that short] by blast
    then show ?thesis
      by (simp only: i(2))
  qed
  ultimately show ?thesis
    by blast
qed

theorem C2_witness:
  "store_inv example_store \<and>
   \<lparr>word = ''airway'', dist = 3\<rparr> \<in> set (get_suggestions malloc_succeeds example_store ''nayway'' 3 6 2) \<and>
   int MAX_WORD_LEN - 2 ^ 31 \<le> 6 \<and>
   dist \<lparr>word = ''airway'', dist = 3\<rparr> \<le> 3 \<and>
   6 \<le> int (length (word \<lparr>word = ''airway'', dist = 3\<rparr>)) \<and>
   \<bar>int (length (word \<lparr>word = ''airway'', dist = 3\<rparr>)) - 6\<bar> \<le> 2"
proof -
  have m: "\<lparr>word = ''airway'', dist = 3\<rparr>
      \<in> set (get_suggestions malloc_succeeds example_store ''nayway'' 3 6 2)"
    by (simp add: example_nayway)
  have r: "int MAX_WORD_LEN - 2 ^ 31 \<le> 6"
    by (simp add: MAX_WORD_LEN_def)
  from C2_suggestions_within_bounds [OF store_inv_example m] store_inv_example m r
  show ?thesis
    by blast
qed

text \<open>
  The claim as stated, for every query, fails for a query length below
  \<open>MAX_WORD_LEN - 2^31\<close>: with the query length \<open>-2147483645\<close> and the length tolerance
  \<open>2147483647\<close> the difference of the lengths wraps around, and \<open>anyway\<close> is returned
  although its length differs from the query length by \<open>2147483651\<close>.
\<close>

theorem C2_counterexample:
  "store_inv example_store \<and>
   \<lparr>word = ''anyway'', dist = 1\<rparr>
     \<in> set (get_suggestions malloc_succeeds example_store ''nayway'' 3 (- 2147483645) 2147483647) \<and>
   \<not> \<bar>int (length (word \<lparr>word = ''anyway'', dist = 1\<rparr>)) - (- 2147483645)\<bar> \<le> 2147483647"
  by (simp add: store_inv_example example_overflow)

text \<open>
  C3. The suggestions come back ordered by ascending distance and, among equal distances,
  by ascending lexicographic order of the words (the order \<open>strcmp\<close> decides): for
  positions \<open>i < j\<close>, either \<open>d_i < d_j\<close>, or \<open>d_i = d_j\<close> and \<open>w_i \<le> w_j\<close>.
\<close>

theorem C3_suggestions_sorted:
  assumes "r = get_suggestions heap st w tolerance misspelled_word_len length_tolerance"
    and "i < j" and "j < length r"
  shows "dist (r ! i) < dist (r ! j) \<or>
     (dist (r ! i) = dist (r ! j) \<and> word (r ! i) \<le> word (r ! j) \<and>
      strcmp (word (r ! i)) (word (r ! j)) \<le> 0)"
proof -
  have "sorted (map suggestion_key r)"
    unfolding assms(1) get_suggestions_def Let_def
    by (simp add: sort_suggestions_props(3))
  then have "suggestion_key (r ! i) \<le> suggestion_key (r ! j)"
    using assms(2,3) by (simp add: sorted_iff_nth_mono)
  then show ?thesis
    by (auto simp: suggestion_key_def strcmp_le_iff)
qed

theorem C3_witness:
  "[\<lparr>word = ''anyway'', dist = 0\<rparr>, \<lparr>word = ''airway'', dist = 2\<rparr>, \<lparr>word = ''any'', dist = 3\<rparr>]
     = get_suggestions malloc_succeeds example_store ''anyway'' 3 3 3 \<and>
   (1 :: nat) < 2 \<and>
   2 < length [\<lparr>word = ''anyway'', dist = 0\<rparr>, \<lparr>word = ''airway'', dist = 2\<rparr>,
     \<lparr>word = ''any'', dist = 3\<rparr>] \<and>
   dist \<lparr>word = ''airway'', dist = 2\<rparr> < dist \<lparr>word = ''any'', dist = 3\<rparr>"
proof -
  let ?r = "[\<lparr>word = ''anyway'', dist = 0\<rparr>, \<lparr>word = ''airway'', dist = 2\<rparr>,
    \<lparr>word = ''any'', dist = 3\<rparr>]"
  have r: "?r = get_suggestions malloc_succeeds example_store ''anyway'' 3 3 3"
    by (simp only: example_anyway)
  have ij: "(1 :: nat) < 2" "2 < length ?r"
    by simp_all
  from C3_suggestions_sorted [OF r ij] r ij show ?thesis
    by simp
qed

text \<open>
  C4. \<open>get_suggestions\<close> returns at most \<open>MAX_TEMP_SUGGESTIONS\<close> suggestions, and they
  are the first \<open>MAX_TEMP_SUGGESTIONS\<close> qualifying candidates in store order (all of them
  when there are fewer), rearranged by the sort; whatever qualifies after the cap is
  dropped. A candidate qualifies when it passes the tests of the scan as the program
  computes them; for a query length of at least \<open>MAX_WORD_LEN - 2^31\<close> these are the
  tests of the specification: at least as long as the query length, within
  \<open>length_tolerance\<close> of it, and at a distance between 0 and \<open>tolerance\<close>.
\<close>

theorem C4_first_candidates_up_to_cap:
  assumes "store_inv st"
  shows "length (get_suggestions heap st w tolerance misspelled_word_len length_tolerance)
       \<le> MAX_TEMP_SUGGESTIONS \<and>
     length (get_suggestions heap st w tolerance misspelled_word_len length_tolerance)
       = min MAX_TEMP_SUGGESTIONS
           (length (qualifying_candidates heap (lowercase (strncpy_word w)) tolerance
              misspelled_word_len length_tolerance (stored_words st))) \<and>
     mset (get_suggestions heap st w tolerance misspelled_word_len length_tolerance)
       = mset (take MAX_TEMP_SUGGESTIONS
           (qualifying_candidates heap (lowercase (strncpy_word w)) tolerance
              misspelled_word_len length_tolerance (stored_words st))) \<and>
     get_suggestions heap st w tolerance misspelled_word_len length_tolerance
       = sort_suggestions (take MAX_TEMP_SUGGESTIONS
           (qualifying_candidates heap (lowercase (strncpy_word w)) tolerance
              misspelled_word_len length_tolerance (stored_words st))) \<and>
     (int MAX_WORD_LEN - 2 ^ 31 \<le> misspelled_word_len \<longrightarrow>
        (\<forall>i < length (stored_words st).
           qualifies heap (lowercase (strncpy_word w)) tolerance misspelled_word_len
             length_tolerance (i, stored_words st ! i) \<longleftrightarrow>
           (misspelled_word_len \<le> int (length (stored_words st ! i)) \<and>
            \<bar>int (length (stored_words st ! i)) - misspelled_word_len\<bar> \<le> length_tolerance \<and>
            0 \<le> damerau_levenshtein_distance (heap i) (lowercase (strncpy_word w))
                  (stored_words st ! i) \<and>
            damerau_levenshtein_distance (heap i) (lowercase (strncpy_word w))
              (stored_words st ! i) \<le> tolerance)))"
proof -
  have "qualifies heap (lowercase (strncpy_word w)) tolerance misspelled_word_len
        length_tolerance (i, stored_words st ! i) \<longleftrightarrow>
      (misspelled_word_len \<le> int (length (stored_words st ! i)) \<and>
       \<bar>int (length (stored_words st ! i)) - misspelled_word_len\<bar> \<le> length_tolerance \<and>
       0 \<le> damerau_levenshtein_distance (heap i) (lowercase (strncpy_word w))
             (stored_words st ! i) \<and>
       damerau_levenshtein_distance (heap i) (lowercase (strncpy_word w))
         (stored_words st ! i) \<le> tolerance)"
    if "int MAX_WORD_LEN - 2 ^ 31 \<le> misspelled_word_len" "i < length (stored_words st)" for i
  proof (rule qualifies_in_range [OF that(1)])
    show "length (stored_words st ! i) < MAX_WORD_LEN"
      using assms that(2) by (simp add: store_inv_def)
  qed
  then show ?thesis
    by (simp add: get_suggestions_eq [OF assms] sort_suggestions_props min.commute)
qed

theorem C4_witness:
  "store_inv full_store \<and>
   MAX_TEMP_SUGGESTIONS
     < length (qualifying_candidates malloc_succeeds (lowercase (strncpy_word ''a'')) 1 1 0
         (stored_words full_store)) \<and>
   \<lparr>word = ''b'', dist = 1\<rparr>
     \<in> set (qualifying_candidates malloc_succeeds (lowercase (strncpy_word ''a'')) 1 1 0
         (stored_words full_store)) \<and>
   get_suggestions malloc_succeeds full_store ''a'' 1 1 0
     = replicate 1000 \<lparr>word = ''a'', dist = 0\<rparr> \<and>
   length (get_suggestions malloc_succeeds full_store ''a'' 1 1 0) \<le> MAX_TEMP_SUGGESTIONS \<and>
   mset (get_suggestions malloc_succeeds full_store ''a'' 1 1 0)
     = mset (take MAX_TEMP_SUGGESTIONS
         (qualifying_candidates malloc_succeeds (lowercase (strncpy_word ''a'')) 1 1 0
            (stored_words full_store))) \<and>
   \<lparr>word = ''b'', dist = 1\<rparr> \<notin> set (get_suggestions malloc_succeeds full_store ''a'' 1 1 0)"
proof -
  have lw: "lowercase (strncpy_word ''a'') = ''a''"
    by code_simp
  have q: "qualifying_candidates malloc_succeeds (lowercase (strncpy_word ''a'')) 1 1 0
      (stored_words full_store) =
      replicate 1000 \<lparr>word = ''a'', dist = 0\<rparr> @ [\<lparr>word = ''b'', dist = 1\<rparr>]"
    by (simp only: lw stored_words_full full_store_candidates)
  have n: "MAX_TEMP_SUGGESTIONS
      < length (qualifying_candidates malloc_succeeds (lowercase (strncpy_word ''a'')) 1 1 0
          (stored_words full_store))"
    unfolding q by (simp add: MAX_TEMP_SUGGESTIONS_def)
  have b: "\<lparr>word = ''b'', dist = 1\<rparr>
      \<in> set (qualifying_candidates malloc_succeeds (lowercase (strncpy_word ''a'')) 1 1 0
          (stored_words full_store))"
    unfolding q by simp
  have d: "\<lparr>word = ''b'', dist = 1\<rparr> \<notin> set (get_suggestions malloc_succeeds full_store ''a'' 1 1 0)"
    by (simp add: example_full_store)
  from C4_first_candidates_up_to_cap [OF store_inv_full, of malloc_succeeds "''a''" 1 1 0]
    store_inv_full n b d example_full_store
  show ?thesis
    by blast
qed

text \<open>
  C7. When the distance computation for a candidate returns the negative value of a
  failed allocation, the scan goes on with the next candidate and the entries written so
  far, and no returned suggestion carries a negative distance. A candidate that
  qualifies is returned whatever allocations failed for other candidates, as long as
  the qualifying candidates fit the buffer.
\<close>

theorem C7_failed_allocation_skips_candidate:
  "(damerau_levenshtein_distance (heap i) lower_word dict_word < 0 \<longrightarrow>
      get_suggestions_loop heap lower_word tolerance misspelled_word_len length_tolerance i
        (dict_word # rest) suggestions =
      get_suggestions_loop heap lower_word tolerance misspelled_word_len length_tolerance (Suc i)
        rest suggestions) \<and>
   (\<forall>s \<in> set (get_suggestions heap st w tolerance misspelled_word_len length_tolerance).
      0 \<le> dist s) \<and>
   (store_inv st \<and> k < length (stored_words st) \<and>
    qualifies heap (lowercase (strncpy_word w)) tolerance misspelled_word_len length_tolerance
      (k, stored_words st ! k) \<and>
    length (qualifying_candidates heap (lowercase (strncpy_word w)) tolerance
      misspelled_word_len length_tolerance (stored_words st)) \<le> MAX_TEMP_SUGGESTIONS \<longrightarrow>
    candidate heap (lowercase (strncpy_word w)) (k, stored_words st ! k)
      \<in> set (get_suggestions heap st w tolerance misspelled_word_len length_tolerance))"
proof (intro conjI impI ballI)
  assume "damerau_levenshtein_distance (heap i) lower_word dict_word < 0"
  then show "get_suggestions_loop heap lower_word tolerance misspelled_word_len length_tolerance i
        (dict_word # rest) suggestions =
      get_suggestions_loop heap lower_word tolerance misspelled_word_len length_tolerance (Suc i)
        rest suggestions"
    by (simp add: Let_def)
next
  fix s
  assume "s \<in> set (get_suggestions heap st w tolerance misspelled_word_len length_tolerance)"
  then show "0 \<le> dist s"
    by (rule get_suggestions_nonneg)
next
  let ?lw = "lowercase (strncpy_word w)"
  let ?q = "qualifies heap ?lw tolerance misspelled_word_len length_tolerance"
  assume a: "store_inv st \<and> k < length (stored_words st) \<and> ?q (k, stored_words st ! k) \<and>
    length (qualifying_candidates heap ?lw tolerance misspelled_word_len length_tolerance
      (stored_words st)) \<le> MAX_TEMP_SUGGESTIONS"
  then have "(k, stored_words st ! k) \<in> set (filter ?q (enumerate 0 (stored_words st)))"
    by (simp add: in_set_enumerate_eq)
  then have "candidate heap ?lw (k, stored_words st ! k)
      \<in> set (qualifying_candidates heap ?lw tolerance misspelled_word_len length_tolerance
          (stored_words st))"
    unfolding qualifying_candidates_def set_map by (rule imageI)
  with a show "candidate heap ?lw (k, stored_words st ! k)
      \<in> set (get_suggestions heap st w tolerance misspelled_word_len length_tolerance)"
    by (simp add: get_suggestions_eq set_sort_suggestions)
qed

theorem C7_witness:
  "damerau_levenshtein_distance (malloc_fails_first 0) ''nayway'' ''anyway'' < 0 \<and>
   get_suggestions_loop malloc_fails_first ''nayway'' 3 6 2 0 (''anyway'' # [''any'', ''airway'']) []
     = get_suggestions_loop malloc_fails_first ''nayway'' 3 6 2 (Suc 0) [''any'', ''airway''] [] \<and>
   get_suggestions malloc_fails_first example_store ''nayway'' 3 6 2
     = [\<lparr>word = ''airway'', dist = 3\<rparr>] \<and>
   0 \<le> dist \<lparr>word = ''airway'', dist = 3\<rparr> \<and>
   store_inv example_store \<and> 2 < length [''anyway'', ''any'', ''airway''] \<and>
   qualifies malloc_fails_first ''nayway'' 3 6 2 (2, [''anyway'', ''any'', ''airway''] ! 2) \<and>
   length (qualifying_candidates malloc_fails_first ''nayway'' 3 6 2 [''anyway'', ''any'', ''airway''])
     \<le> MAX_TEMP_SUGGESTIONS \<and>
   candidate malloc_fails_first ''nayway'' (2, [''anyway'', ''any'', ''airway''] ! 2)
     \<in> set (get_suggestions malloc_fails_first example_store ''nayway'' 3 6 2)"
proof -
  have lw: "lowercase (strncpy_word ''nayway'') = ''nayway''"
    by code_simp
  have neg: "damerau_levenshtein_distance (malloc_fails_first 0) ''nayway'' ''anyway'' < 0"
    by (simp add: malloc_fails_first_def damerau_levenshtein_distance_def)
  have m: "\<lparr>word = ''airway'', dist = 3\<rparr>
      \<in> set (get_suggestions malloc_fails_first example_store ''nayway'' 3 6 2)"
    by (simp add: example_nayway_failed_malloc)
  have k: "2 < length [''anyway'', ''any'', ''airway'']"
    by simp
  have q: "qualifies malloc_fails_first ''nayway'' 3 6 2 (2, [''anyway'', ''any'', ''airway''] ! 2)"
    by code_simp
  have n: "length (qualifying_candidates malloc_fails_first ''nayway'' 3 6 2
      [''anyway'', ''any'', ''airway'']) \<le> MAX_TEMP_SUGGESTIONS"
    by code_simp
  from C7_failed_allocation_skips_candidate [of malloc_fails_first 0 "''nayway''" "''anyway''"
      3 6 2 "[''any'', ''airway'']" "[]" example_store "''nayway''" 2,
      unfolded lw stored_words_example]
    neg m k q n store_inv_example example_nayway_failed_malloc
  show ?thesis
    by blast
qed

text \<open>
  C10. Both length filters of \<open>get_suggestions\<close> compare a candidate with the
  parameter \<open>misspelled_word_len\<close>, and the distance is computed from the (lowercased,
  truncated) word argument: every returned suggestion is a store word that is at least
  \<open>misspelled_word_len\<close> long and passes the program's test of the length difference
  against \<open>length_tolerance\<close> (for a query length of at least \<open>MAX_WORD_LEN - 2^31\<close>: is
  within \<open>length_tolerance\<close> of it), with its distance to the word argument; what is
  returned is determined by these tests alone. So a returned suggestion can be shorter
  than the query itself (\<open>any\<close> for \<open>anyway\<close> with a stated length of 3) or longer
  (\<open>anyway\<close> for \<open>any\<close> with a stated length of 5).
\<close>

theorem C10_length_filters_use_parameter:
  "(store_inv st \<longrightarrow>
      (\<forall>s \<in> set (get_suggestions heap st w tolerance misspelled_word_len length_tolerance).
         misspelled_word_len \<le> int (length (word s)) \<and>
         c_abs (c_sub (int (length (word s))) misspelled_word_len) \<le> length_tolerance \<and>
         (int MAX_WORD_LEN - 2 ^ 31 \<le> misspelled_word_len \<longrightarrow>
            \<bar>int (length (word s)) - misspelled_word_len\<bar> \<le> length_tolerance) \<and>
         (\<exists>i < length (stored_words st). word s = stored_words st ! i \<and>
            dist s = damerau_levenshtein_distance (heap i) (lowercase (strncpy_word w)) (word s))) \<and>
      get_suggestions heap st w tolerance misspelled_word_len length_tolerance
        = sort_suggestions (take MAX_TEMP_SUGGESTIONS
            (qualifying_candidates heap (lowercase (strncpy_word w)) tolerance
               misspelled_word_len length_tolerance (stored_words st)))) \<and>
   (\<exists>s \<in> set (get_suggestions malloc_succeeds example_store ''anyway'' 3 3 3).
      3 \<le> length (word s) \<and> length (word s) < length ''anyway'') \<and>
   (\<exists>s \<in> set (get_suggestions malloc_succeeds example_store ''any'' 3 5 1).
      5 \<le> length (word s) \<and> length ''any'' < length (word s))"
proof (intro conjI impI ballI)
  fix s
  assume inv: "store_inv st"
    and s: "s \<in> set (get_suggestions heap st w tolerance misspelled_word_len length_tolerance)"
  let ?lw = "lowercase (strncpy_word w)"
  from get_suggestions_member [OF inv s] obtain i
    where i: "i < length (stored_words st)" "word s = stored_words st ! i"
      "dist s = damerau_levenshtein_distance (heap i) ?lw (stored_words st ! i)"
      "qualifies heap ?lw tolerance misspelled_word_len length_tolerance (i, stored_words st ! i)"
    by blast
  from inv i(1) have short: "length (stored_words st ! i) < MAX_WORD_LEN"
    by (simp add: store_inv_def)
  from i(2,4) show "misspelled_word_len \<le> int (length (word s))"
    and "c_abs (c_sub (int (length (word s))) misspelled_word_len) \<le> length_tolerance"
    by (simp_all add: qualifies_def)
  from i(1-3) show "\<exists>i < length (stored_words st). word s = stored_words st ! i \<and>
      dist s = damerau_levenshtein_distance (heap i) ?lw (word s)"
    by auto
  assume "int MAX_WORD_LEN - 2 ^ 31 \<le> misspelled_word_len"
  from i(4) [unfolded qualifies_in_range [OF this short]]
  have "\<bar>int (length (stored_words st ! i)) - misspelled_word_len\<bar> \<le> length_tolerance"
    by blast
  then show "\<bar>int (length (word s)) - misspelled_word_len\<bar> \<le> length_tolerance"
    by (simp only: i(2))
next
  assume "store_inv st"
  then show "get_suggestions heap st w tolerance misspelled_word_len length_tolerance
      = sort_suggestions (take MAX_TEMP_SUGGESTIONS
          (qualifying_candidates heap (lowercase (strncpy_word w)) tolerance
             misspelled_word_len length_tolerance (stored_words st)))"
    by (rule get_suggestions_eq)
next
  show "\<exists>s \<in> set (get_suggestions malloc_succeeds example_store ''anyway'' 3 3 3).
      3 \<le> length (word s) \<and> length (word s) < length ''anyway''"
    by (simp add: example_anyway)
next
  show "\<exists>s \<in> set (get_suggestions malloc_succeeds example_store ''any'' 3 5 1).
      5 \<le> length (word s) \<and> length ''any'' < length (word s)"
    by (simp add: example_any)
qed

theorem C10_witness:
  "store_inv example_store \<and>
   get_suggestions malloc_succeeds example_store ''anyway'' 3 3 3
     = sort_suggestions (take MAX_TEMP_SUGGESTIONS
         (qualifying_candidates malloc_succeeds (lowercase (strncpy_word ''anyway'')) 3 3 3
            (stored_words example_store))) \<and>
   \<lparr>word = ''any'', dist = 3\<rparr> \<in> set (get_suggestions malloc_succeeds example_store ''anyway'' 3 3 3) \<and>
   int MAX_WORD_LEN - 2 ^ 31 \<le> 3 \<and>
   3 \<le> int (length (word \<lparr>word = ''any'', dist = 3\<rparr>)) \<and>
   \<bar>int (length (word \<lparr>word = ''any'', dist = 3\<rparr>)) - 3\<bar> \<le> 3"
proof -
  have m: "\<lparr>word = ''any'', dist = 3\<rparr>
      \<in> set (get_suggestions malloc_succeeds example_store ''anyway'' 3 3 3)"
    by (simp add: example_anyway)
  have r: "int MAX_WORD_LEN - 2 ^ 31 \<le> 3"
    by (simp add: MAX_WORD_LEN_def)
  from C10_length_filters_use_parameter [of example_store malloc_succeeds "''anyway''" 3 3 3]
    store_inv_example m r
  show ?thesis
    by blast
qed

subsection \<open>Claims about the dictionary\<close>

lemma load_loop_succeeds: "\<forall>n. r n \<Longrightarrow> fst (load_dictionary_loop r bs st) = 1"
proof (induction "length bs" arbitrary: bs st rule: less_induct)
  case less
  show ?case
  proof (cases "fgets MAX_LINE_LEN bs")
    case None
    then show ?thesis
      by (simp add: load_loop_eof)
  next
    case (Some x)
    obtain chunk rest where x: "x = (chunk, rest)"
      by (cases x)
    note IH = less(1) [OF fgets_shorter [OF Some [unfolded x]] less.prems]
    show ?thesis
      unfolding load_loop_step [OF Some [unfolded x]] using less.prems by (simp add: IH)
  qed
qed

lemma load_dictionary_succeeds:
  "fopen_result env = Some bs \<Longrightarrow> malloc_dictionary env \<Longrightarrow> \<forall>n. realloc_dictionary env n \<Longrightarrow>
   fst (load_dictionary env st0) = 1"
  by (simp add: load_dictionary_def Let_def load_loop_succeeds)

lemma load_loop_store_step:
  assumes "fgets MAX_LINE_LEN bs = Some (chunk, rest)" "normalize_line chunk = line"
    "length line < MAX_WORD_LEN" "length ws < cap"
  shows "load_dictionary_loop r bs
      \<lparr>dictionary = Some ws, dictionary_count = length ws, dictionary_capacity = cap\<rparr> =
    load_dictionary_loop r rest
      \<lparr>dictionary = Some (ws @ [line]), dictionary_count = length (ws @ [line]),
       dictionary_capacity = cap\<rparr>"
  using assms(2-4)
  by (simp add: load_loop_step [OF assms(1)] dictionary_store_def strncpy_word_id)

lemma load_example: "load_dictionary example_env initial_globals = (1, example_store)"
proof -
  let ?r = "\<lambda>n :: nat. True"
  let ?st = "\<lambda>ws. \<lparr>dictionary = Some ws, dictionary_count = length ws,
    dictionary_capacity = DICTIONARY_SIZE\<rparr>"
  have 1: "fgets MAX_LINE_LEN example_file
      = Some (''Anyway'' @ [CHR 0x0D, CHR 0x0A], ''any'' @ [CHR 0x0A] @ ''AIRWAY'')"
    by code_simp
  have 2: "fgets MAX_LINE_LEN (''any'' @ [CHR 0x0A] @ ''AIRWAY'') = Some (''any'' @ [CHR 0x0A], ''AIRWAY'')"
    by code_simp
  have 3: "fgets MAX_LINE_LEN ''AIRWAY'' = Some (''AIRWAY'', [])"
    by code_simp
  have 4: "fgets MAX_LINE_LEN [] = None"
    by (simp add: fgets_def)
  have n1: "normalize_line (''Anyway'' @ [CHR 0x0D, CHR 0x0A]) = ''anyway''"
    by code_simp
  have n2: "normalize_line (''any'' @ [CHR 0x0A]) = ''any''"
    by code_simp
  have n3: "normalize_line ''AIRWAY'' = ''airway''"
    by code_simp
  have "load_dictionary example_env initial_globals = load_dictionary_loop ?r example_file (?st [])"
    by (simp add: load_dictionary_def example_env_def initial_globals_def cleanup_def)
  also have "\<dots> = load_dictionary_loop ?r (''any'' @ [CHR 0x0A] @ ''AIRWAY'') (?st ([] @ [''anyway'']))"
    by (rule load_loop_store_step [OF 1 n1]) (simp_all add: MAX_WORD_LEN_def DICTIONARY_SIZE_def)
  also have "\<dots> = load_dictionary_loop ?r ''AIRWAY'' (?st (([] @ [''anyway'']) @ [''any'']))"
    by (rule load_loop_store_step [OF 2 n2]) (simp_all add: MAX_WORD_LEN_def DICTIONARY_SIZE_def)
  also have "\<dots> = load_dictionary_loop ?r [] (?st ((([] @ [''anyway'']) @ [''any'']) @ [''airway'']))"
    by (rule load_loop_store_step [OF 3 n3]) (simp_all add: MAX_WORD_LEN_def DICTIONARY_SIZE_def)
  also have "\<dots> = (1, ?st ((([] @ [''anyway'']) @ [''any'']) @ [''airway'']))"
    by (rule load_loop_eof [OF 4])
  finally show ?thesis
    by (simp add: example_store_def)
qed

lemma load_blank_line:
  "load_dictionary blank_line_env initial_globals =
     (1, \<lparr>dictionary = Some [''any'', []], dictionary_count = 2,
          dictionary_capacity = DICTIONARY_SIZE\<rparr>)"
proof -
  let ?r = "\<lambda>n :: nat. True"
  let ?st = "\<lambda>ws. \<lparr>dictionary = Some ws, dictionary_count = length ws,
    dictionary_capacity = DICTIONARY_SIZE\<rparr>"
  have 1: "fgets MAX_LINE_LEN (''any'' @ [CHR 0x0A, CHR 0x0A]) = Some (''any'' @ [CHR 0x0A], [CHR 0x0A])"
    by code_simp
  have 2: "fgets MAX_LINE_LEN [CHR 0x0A] = Some ([CHR 0x0A], [])"
    by code_simp
  have 3: "fgets MAX_LINE_LEN [] = None"
    by (simp add: fgets_def)
  have n1: "normalize_line (''any'' @ [CHR 0x0A]) = ''any''"
    by code_simp
  have n2: "normalize_line [CHR 0x0A] = []"
    by code_simp
  have "load_dictionary blank_line_env initial_globals =
      load_dictionary_loop ?r (''any'' @ [CHR 0x0A, CHR 0x0A]) (?st [])"
    by (simp add: load_dictionary_def blank_line_env_def initial_globals_def cleanup_def)
  also have "\<dots> = load_dictionary_loop ?r [CHR 0x0A] (?st ([] @ [''any'']))"
    by (rule load_loop_store_step [OF 1 n1]) (simp_all add: MAX_WORD_LEN_def DICTIONARY_SIZE_def)
  also have "\<dots> = load_dictionary_loop ?r [] (?st (([] @ [''any'']) @ [[]]))"
    by (rule load_loop_store_step [OF 2 n2]) (simp_all add: MAX_WORD_LEN_def DICTIONARY_SIZE_def)
  also have "\<dots> = (1, ?st (([] @ [''any'']) @ [[]]))"
    by (rule load_loop_eof [OF 3])
  finally show ?thesis
    by simp
qed

text \<open>
  A line that does not fit the line buffer is read in pieces, and a last piece that is
  short enough is stored as a word of its own.
\<close>

lemma load_long_line:
  "stored_words (snd (load_dictionary long_line_env initial_globals)) = [''tail'']"
proof -
  let ?st0 = "\<lparr>dictionary = Some [], dictionary_count = 0, dictionary_capacity = DICTIONARY_SIZE\<rparr>"
  let ?r = "\<lambda>n :: nat. True"
  have 1: "fgets MAX_LINE_LEN (replicate 255 CHR ''a'' @ ''tail'' @ [CHR 0x0A])
      = Some (replicate 255 CHR ''a'', ''tail'' @ [CHR 0x0A])"
    by code_simp
  have 2: "fgets MAX_LINE_LEN (''tail'' @ [CHR 0x0A]) = Some (''tail'' @ [CHR 0x0A], [])"
    by code_simp
  have 3: "fgets MAX_LINE_LEN [] = None"
    by (simp add: fgets_def)
  have n1: "\<not> length (normalize_line (replicate 255 CHR ''a'')) < MAX_WORD_LEN"
    by (simp add: normalize_line_def lowercase_def strcspn_cut_def MAX_WORD_LEN_def)
  have n2: "normalize_line (''tail'' @ [CHR 0x0A]) = ''tail''"
    by code_simp
  have "load_dictionary long_line_env initial_globals =
      load_dictionary_loop ?r (replicate 255 CHR ''a'' @ ''tail'' @ [CHR 0x0A]) ?st0"
    by (simp add: load_dictionary_def long_line_env_def initial_globals_def cleanup_def)
  also have "\<dots> = load_dictionary_loop ?r (''tail'' @ [CHR 0x0A]) ?st0"
    by (simp only: load_loop_step [OF 1] n1 if_False)
  also have "\<dots> = load_dictionary_loop ?r [] (dictionary_store ?st0 ''tail'')"
    by (subst load_loop_step [OF 2], simp only: n2)
      (simp add: MAX_WORD_LEN_def DICTIONARY_SIZE_def)
  also have "\<dots> = (1, dictionary_store ?st0 ''tail'')"
    by (rule load_loop_eof [OF 3])
  finally show ?thesis
    by (simp add: stored_words_def dictionary_store_def strncpy_word_def MAX_WORD_LEN_def)
qed

lemma load_missing_file:
  "load_dictionary missing_file_env example_store = (0, initial_globals)"
  by (simp add: load_dictionary_def missing_file_env_def cleanup_def example_store_def
      initial_globals_def)


text \<open>
  C5 (amended). \<open>is_word_correct\<close> returns 1 exactly when the query, cut to its first
  \<open>MAX_WORD_LEN - 1\<close> bytes and folded to lowercase, is one of the stored words, and 0
  otherwise. The query is not trimmed: for a query shorter than \<open>MAX_WORD_LEN\<close> without
  newline or carriage return this is the normalization of the load, and the claim holds
  as it was stated.
\<close>

theorem C5_membership_of_lowercased_query:
  "(is_word_correct st w = 1 \<longleftrightarrow> lowercase (strncpy_word w) \<in> set (stored_words st)) \<and>
   (is_word_correct st w = 0 \<longleftrightarrow> lowercase (strncpy_word w) \<notin> set (stored_words st)) \<and>
   (length w < MAX_WORD_LEN \<and> (\<forall>c \<in> set w. c \<noteq> CHR 0x0A \<and> c \<noteq> CHR 0x0D \<and> c \<noteq> CHR 0x00) \<longrightarrow>
      (is_word_correct st w = 1 \<longleftrightarrow> normalize_line w \<in> set (stored_words st)))"
proof -
  have "normalize_line w = lowercase (strncpy_word w)"
    if "length w < MAX_WORD_LEN" "\<forall>c \<in> set w. c \<noteq> CHR 0x0A \<and> c \<noteq> CHR 0x0D \<and> c \<noteq> CHR 0x00"
  proof -
    from that(2) have "strcspn_cut w = w"
      unfolding strcspn_cut_def by (simp add: takeWhile_eq_all_conv)
    with that(1) show ?thesis
      by (simp add: normalize_line_def strncpy_word_id)
  qed
  then show ?thesis
    by (simp add: is_word_correct_eq)
qed

theorem C5_witness:
  "length ''ANY'' < MAX_WORD_LEN \<and>
   \<not> (\<exists>c \<in> set ''ANY''. \<not> (c \<noteq> CHR 0x0A \<and> c \<noteq> CHR 0x0D \<and> c \<noteq> CHR 0x00)) \<and>
   is_word_correct example_store ''ANY'' = 1 \<and>
   normalize_line ''ANY'' \<in> set (stored_words example_store)"
proof -
  have l: "length ''ANY'' < MAX_WORD_LEN"
    by (simp add: MAX_WORD_LEN_def)
  have c: "\<forall>c \<in> set ''ANY''. c \<noteq> CHR 0x0A \<and> c \<noteq> CHR 0x0D \<and> c \<noteq> CHR 0x00"
    by simp
  have n: "normalize_line ''ANY'' = ''any''"
    by code_simp
  have m: "normalize_line ''ANY'' \<in> set (stored_words example_store)"
    unfolding n by (simp add: stored_words_example)
  from C5_membership_of_lowercased_query [of example_store "''ANY''"] l c m show ?thesis
    by blast
qed

text \<open>
  The claim as stated fails for a query that ends in a newline: trimmed and lowercased
  it is the stored word \<open>any\<close>, but \<open>is_word_correct\<close> compares the untrimmed query
  and returns 0.
\<close>

theorem C5_counterexample:
  "\<not> (is_word_correct example_store (''any'' @ [CHR 0x0A]) = 1 \<longleftrightarrow>
      normalize_line (''any'' @ [CHR 0x0A]) \<in> set (stored_words example_store))"
proof -
  have "lowercase (strncpy_word (''any'' @ [CHR 0x0A])) = ''any'' @ [CHR 0x0A]"
    by code_simp
  then have "is_word_correct example_store (''any'' @ [CHR 0x0A]) = 0"
    by (simp add: is_word_correct_eq stored_words_example)
  moreover have "normalize_line (''any'' @ [CHR 0x0A]) = ''any''"
    by code_simp
  ultimately show ?thesis
    by (simp add: stored_words_example)
qed

lemma strcspn_cut_trim:
  assumes "\<forall>c \<in> set (trim_line l). c \<noteq> CHR 0x0A \<and> c \<noteq> CHR 0x0D \<and> c \<noteq> CHR 0x00"
  shows "strcspn_cut l = trim_line l"
proof -
  let ?nl = "\<lambda>c. c = CHR 0x0A \<or> c = CHR 0x0D"
  let ?P = "\<lambda>c. c \<noteq> CHR 0x0A \<and> c \<noteq> CHR 0x0D \<and> c \<noteq> CHR 0x00"
  define ending where "ending = rev (takeWhile ?nl (rev l))"
  have "rev l = takeWhile ?nl (rev l) @ dropWhile ?nl (rev l)"
    by simp
  then have "rev (rev l) = rev (takeWhile ?nl (rev l) @ dropWhile ?nl (rev l))"
    by (rule arg_cong)
  then have l: "l = trim_line l @ ending"
    by (simp only: rev_rev_ident rev_append trim_line_def ending_def)
  have "\<forall>c \<in> set ending. ?nl c"
    unfolding ending_def set_rev by (blast dest: set_takeWhileD)
  then have "takeWhile ?P ending = []"
    by (cases ending) auto
  moreover have "takeWhile ?P (trim_line l @ ending) = trim_line l @ takeWhile ?P ending"
    using assms by (intro takeWhile_append2) blast
  ultimately have "takeWhile ?P (trim_line l @ ending) = trim_line l"
    by simp
  then show ?thesis
    unfolding strcspn_cut_def using l by simp
qed

text \<open>
  C6 (amended). After a successful \<open>load_dictionary\<close> every stored word is shorter than
  \<open>MAX_WORD_LEN\<close>; it may be empty. When every line of the file, with its newline, fits
  the line buffer (fewer than \<open>MAX_LINE_LEN\<close> bytes), the stored words are exactly the
  normalized lines shorter than \<open>MAX_WORD_LEN\<close>, in order, where normalizing a line
  cuts it at its first newline, carriage return or NUL byte and folds what is left to
  lowercase: a line whose normalized length is \<open>MAX_WORD_LEN\<close> or more is left out, and
  no word is stored cut to the size of the word buffer. For a line whose only newlines
  and carriage returns are at its end and that has no NUL byte, normalizing is trimming
  them and folding to lowercase.
\<close>

theorem C6_stored_words_bounded:
  assumes "load_dictionary env st0 = (1, st)"
  shows "(\<forall>w \<in> set (stored_words st). length w < MAX_WORD_LEN) \<and>
     (\<forall>bs. fopen_result env = Some bs \<and> (\<forall>l \<in> set (file_lines bs). length l < MAX_LINE_LEN) \<longrightarrow>
        stored_words st =
          filter (\<lambda>w. length w < MAX_WORD_LEN) (map normalize_line (file_lines bs))) \<and>
     (\<forall>l. normalize_line l =
          lowercase (takeWhile (\<lambda>c. c \<noteq> CHR 0x0A \<and> c \<noteq> CHR 0x0D \<and> c \<noteq> CHR 0x00) l)) \<and>
     (\<forall>l. (\<forall>c \<in> set (trim_line l). c \<noteq> CHR 0x0A \<and> c \<noteq> CHR 0x0D \<and> c \<noteq> CHR 0x00) \<longrightarrow>
          normalize_line l = lowercase (trim_line l))"
proof -
  from assms have ok: "fst (load_dictionary env st0) = 1"
    and st: "snd (load_dictionary env st0) = st"
    by simp_all
  have "store_inv st"
    using store_inv_load_dictionary [of env st0] by (simp only: st)
  then have "\<forall>w \<in> set (stored_words st). length w < MAX_WORD_LEN"
    by (simp only: store_inv_def)
  moreover have "stored_words st =
      filter (\<lambda>w. length w < MAX_WORD_LEN) (map normalize_line (file_lines bs))"
    if "fopen_result env = Some bs \<and> (\<forall>l \<in> set (file_lines bs). length l < MAX_LINE_LEN)" for bs
  proof -
    from that have "fopen_result env = Some bs"
      and "\<forall>l \<in> set (file_lines bs). length l < MAX_LINE_LEN"
      by blast+
    from load_dictionary_lines [OF ok this] show ?thesis
      by (simp only: st)
  qed
  moreover have "normalize_line l =
      lowercase (takeWhile (\<lambda>c. c \<noteq> CHR 0x0A \<and> c \<noteq> CHR 0x0D \<and> c \<noteq> CHR 0x00) l)" for l
    by (simp only: normalize_line_def strcspn_cut_def)
  moreover have "normalize_line l = lowercase (trim_line l)"
    if "\<forall>c \<in> set (trim_line l). c \<noteq> CHR 0x0A \<and> c \<noteq> CHR 0x0D \<and> c \<noteq> CHR 0x00" for l
    using strcspn_cut_trim [OF that] by (simp only: normalize_line_def)
  ultimately show ?thesis
    by blast
qed

theorem C6_witness:
  "load_dictionary example_env initial_globals = (1, example_store) \<and>
   fopen_result example_env = Some example_file \<and>
   \<not> (\<exists>l \<in> set (file_lines example_file). \<not> length l < MAX_LINE_LEN) \<and>
   stored_words example_store =
     filter (\<lambda>w. length w < MAX_WORD_LEN) (map normalize_line (file_lines example_file)) \<and>
   stored_words example_store = [''anyway'', ''any'', ''airway''] \<and>
   \<not> (\<exists>c \<in> set (trim_line (''Anyway'' @ [CHR 0x0D, CHR 0x0A])).
        \<not> (c \<noteq> CHR 0x0A \<and> c \<noteq> CHR 0x0D \<and> c \<noteq> CHR 0x00)) \<and>
   normalize_line (''Anyway'' @ [CHR 0x0D, CHR 0x0A])
     = lowercase (trim_line (''Anyway'' @ [CHR 0x0D, CHR 0x0A]))"
proof -
  have f: "fopen_result example_env = Some example_file"
    by (simp add: example_env_def)
  have "file_lines example_file =
      [''Anyway'' @ [CHR 0x0D, CHR 0x0A], ''any'' @ [CHR 0x0A], ''AIRWAY'']"
    by code_simp
  then have l: "\<forall>l \<in> set (file_lines example_file). length l < MAX_LINE_LEN"
    by (simp add: MAX_LINE_LEN_def)
  have "trim_line (''Anyway'' @ [CHR 0x0D, CHR 0x0A]) = ''Anyway''"
    by code_simp
  then have t: "\<forall>c \<in> set (trim_line (''Anyway'' @ [CHR 0x0D, CHR 0x0A])).
      c \<noteq> CHR 0x0A \<and> c \<noteq> CHR 0x0D \<and> c \<noteq> CHR 0x00"
    by simp
  from C6_stored_words_bounded [OF load_example] load_example f l t stored_words_example
  show ?thesis
    by blast
qed

text \<open>
  A carriage return inside a line ends the word: what follows it on the line is not
  stored.
\<close>

lemma normalize_line_inner_cr:
  "normalize_line (''He'' @ [CHR 0x0D] @ ''llo'' @ [CHR 0x0A]) = ''he''"
  by code_simp

text \<open>
  The claim as stated fails for a file with an empty line: the load succeeds and stores
  the empty word.
\<close>

theorem C6_counterexample:
  "fst (load_dictionary blank_line_env initial_globals) = 1 \<and>
   \<not> (\<forall>w \<in> set (stored_words (snd (load_dictionary blank_line_env initial_globals))).
        1 \<le> length w \<and> length w < MAX_WORD_LEN)"
  by (simp add: load_blank_line stored_words_def)

text \<open>
  C8. With no dictionary (\<open>dictionary\<close> is \<open>NULL\<close>, as at start-up) or an empty one,
  \<open>is_word_correct\<close> returns 0 and \<open>get_suggestions\<close> returns no suggestion. A load that
  fails returns 0 and leaves exactly such a state, whatever was loaded before, and it
  stays until the next load, since no query changes the dictionary.
\<close>

theorem C8_no_dictionary_no_results:
  "(dictionary st = None \<or> dictionary_count st = 0 \<longrightarrow>
      is_word_correct st w = 0 \<and>
      get_suggestions heap st w tolerance misspelled_word_len length_tolerance = []) \<and>
   (load_dictionary env st0 = (ret, st1) \<and> ret \<noteq> 1 \<longrightarrow>
      ret = 0 \<and> dictionary st1 = None \<and> dictionary_count st1 = 0 \<and>
      is_word_correct st1 w = 0 \<and>
      get_suggestions heap st1 w tolerance misspelled_word_len length_tolerance = []) \<and>
   is_word_correct initial_globals w = 0 \<and>
   get_suggestions heap initial_globals w tolerance misspelled_word_len length_tolerance = []"
proof -
  have none: "is_word_correct st w = 0 \<and>
      get_suggestions heap st w tolerance misspelled_word_len length_tolerance = []"
    if "dictionary st = None \<or> dictionary_count st = 0" for st
    using that by (simp add: is_word_correct_def get_suggestions_def)
  have failed: "ret = 0 \<and> dictionary st1 = None \<and> dictionary_count st1 = 0"
    if "load_dictionary env st0 = (ret, st1)" "ret \<noteq> 1"
    using load_dictionary_result [of env st0] that by simp
  have "dictionary initial_globals = None"
    by (simp add: initial_globals_def)
  with none [of st] none [of st1] none [of initial_globals] failed show ?thesis
    by blast
qed

theorem C8_witness:
  "load_dictionary missing_file_env example_store = (0, initial_globals) \<and> (0 :: int) \<noteq> 1 \<and>
   dictionary initial_globals = None \<and> dictionary_count initial_globals = 0 \<and>
   is_word_correct initial_globals ''any'' = 0 \<and>
   get_suggestions malloc_succeeds initial_globals ''nayway'' 3 6 2 = []"
proof -
  have "(0 :: int) \<noteq> 1"
    by simp
  with C8_no_dictionary_no_results [of initial_globals "''any''" malloc_succeeds 3 6 2
      missing_file_env example_store 0 initial_globals]
    C8_no_dictionary_no_results [of initial_globals "''nayway''" malloc_succeeds 3 6 2
      missing_file_env example_store 0 initial_globals]
    load_missing_file
  show ?thesis
    by blast
qed

end
